theory Spec2Isabelle
  imports Main "HOL-Library.Word"
begin

unbundle bit_operations_syntax

section \<open>Data model\<close>

text \<open>
  The library (Terra::Base16, Base32, Base45, Base58, Base64) turns sequences of octets
  into printable text and back.  An octet is \<open>std::uint8_t\<close>, text is a sequence of
  8-bit characters.  The embedding targets an LP64 platform (x86-64 Linux, glibc), where
  \<open>std::size_t\<close>, \<open>std::uint_fast32_t\<close> and \<open>std::uint_fast16_t\<close> are 64 bits
  wide; these registers are 64-bit words whose shifts drop the bits that leave the
  register.  Bit counters, lengths and loop indices are natural numbers: they never
  exceed the length of the input by more than a constant factor, and every subtraction
  on them in the source is guarded by the loop structure.  The source's variable
  \<open>group\<close> is written \<open>grp\<close>.

  Every Decode of the library returns an empty vector both for an empty input and on
  its error paths (\<open>return {}\<close>).  The embedding keeps the two apart: the function
  \<open>*_Decode_result\<close> returns \<open>Inl e\<close> on an error path and \<open>Inr octets\<close> otherwise,
  and \<open>*_Decode\<close> is what the caller sees.
\<close>

type_synonym octet = "8 word"

datatype error =
    DanglingNibble       \<comment> \<open>Base16: a partial group of 4 bits remains\<close>
  | NonZeroPadding       \<comment> \<open>Base32: residual bits of the last group are not zero\<close>
  | LengthError          \<comment> \<open>Base45: a trailing group of one character\<close>
  | InvalidCharacter     \<comment> \<open>Base58: a character outside the alphabet\<close>
  | CarryRemains         \<comment> \<open>Base58: carry bits remain after a conversion pass\<close>

definition returned :: "error + 'a list \<Rightarrow> 'a list" where
  \<comment> \<open>What the caller receives: \<open>return {}\<close> on every error path.\<close>
  "returned r = (case r of Inl e \<Rightarrow> [] | Inr v \<Rightarrow> v)"

section \<open>Base16 (base16.cpp)\<close>

definition Base16Table :: string where
  "Base16Table = ''0123456789ABCDEF''"

definition InvalidBase16Character :: octet where
  "InvalidBase16Character = 255"

text \<open>
  The macro \<open>B16ToInt\<close>.  The reverse table holds \<open>B16ToInt(i)\<close> at every index
  \<open>i\<close> from 0 to 255 and is read at \<open>static_cast<std::uint8_t>(c)\<close>, so the entry
  read for the character \<open>c\<close> is \<open>B16ToInt\<close> of that character.
\<close>

definition B16ToInt :: "char \<Rightarrow> octet" where
  "B16ToInt x =
     (if x = CHR ''0'' then 0 else if x = CHR ''1'' then 1 else if x = CHR ''2'' then 2
      else if x = CHR ''3'' then 3 else if x = CHR ''4'' then 4 else if x = CHR ''5'' then 5
      else if x = CHR ''6'' then 6 else if x = CHR ''7'' then 7 else if x = CHR ''8'' then 8
      else if x = CHR ''9'' then 9 else if x = CHR ''A'' then 10 else if x = CHR ''B'' then 11
      else if x = CHR ''C'' then 12 else if x = CHR ''D'' then 13 else if x = CHR ''E'' then 14
      else if x = CHR ''F'' then 15 else if x = CHR ''a'' then 10 else if x = CHR ''b'' then 11
      else if x = CHR ''c'' then 12 else if x = CHR ''d'' then 13 else if x = CHR ''e'' then 14
      else if x = CHR ''f'' then 15
      else InvalidBase16Character)"

definition Base16ReverseTable :: "char \<Rightarrow> octet" where
  "Base16ReverseTable c = B16ToInt c"

definition Base16_Encode_step :: "string \<Rightarrow> octet \<Rightarrow> string" where
  \<comment> \<open>Body of the loop over the input octets.\<close>
  "Base16_Encode_step output octet =
     (let output = output @ [Base16Table ! unat (drop_bit 4 octet AND 0x0f)];
          output = output @ [Base16Table ! unat (octet AND 0x0f)]
      in output)"

definition Base16_Encode :: "octet list \<Rightarrow> string" where
  "Base16_Encode input =
     (if length input = 0 then [] else foldl Base16_Encode_step [] input)"

definition Base16_Decode_step ::
  "octet list \<times> 64 word \<times> nat \<Rightarrow> char \<Rightarrow> octet list \<times> 64 word \<times> nat" where
  \<comment> \<open>Body of the loop over the input characters; the state is (output, grp, group_size).\<close>
  "Base16_Decode_step st c =
     (case st of (output, grp, group_size) \<Rightarrow>
        let octet = Base16ReverseTable c in
        if octet = InvalidBase16Character then (output, grp, group_size)
        else
          let grp = push_bit 4 grp;
              grp = grp OR ucast (octet AND 0x0f);
              group_size = group_size + 4
          in if group_size = 8
             then (output @ [ucast (grp AND 0xff)], grp, 0)
             else (output, grp, group_size))"

definition Base16_Decode_result :: "string \<Rightarrow> error + octet list" where
  "Base16_Decode_result input =
     (if length input = 0 then Inr []
      else case foldl Base16_Decode_step ([], 0, 0) input of
             (output, grp, group_size) \<Rightarrow>
               if group_size > 0 then Inl DanglingNibble else Inr output)"

definition Base16_Decode :: "string \<Rightarrow> octet list" where
  "Base16_Decode input = returned (Base16_Decode_result input)"

section \<open>Base32 (base32.cpp)\<close>

definition Base32Table :: string where
  "Base32Table = ''ABCDEFGHIJKLMNOPQRSTUVWXYZ234567''"

definition Base32PaddingCharacter :: char where
  "Base32PaddingCharacter = CHR ''=''"

definition InvalidBase32Character :: octet where
  "InvalidBase32Character = 255"

definition B32ToInt :: "char \<Rightarrow> octet" where
  "B32ToInt x =
     (if x = CHR ''A'' then 0 else if x = CHR ''B'' then 1 else if x = CHR ''C'' then 2
      else if x = CHR ''D'' then 3 else if x = CHR ''E'' then 4 else if x = CHR ''F'' then 5
      else if x = CHR ''G'' then 6 else if x = CHR ''H'' then 7 else if x = CHR ''I'' then 8
      else if x = CHR ''J'' then 9 else if x = CHR ''K'' then 10 else if x = CHR ''L'' then 11
      else if x = CHR ''M'' then 12 else if x = CHR ''N'' then 13 else if x = CHR ''O'' then 14
      else if x = CHR ''P'' then 15 else if x = CHR ''Q'' then 16 else if x = CHR ''R'' then 17
      else if x = CHR ''S'' then 18 else if x = CHR ''T'' then 19 else if x = CHR ''U'' then 20
      else if x = CHR ''V'' then 21 else if x = CHR ''W'' then 22 else if x = CHR ''X'' then 23
      else if x = CHR ''Y'' then 24 else if x = CHR ''Z'' then 25 else if x = CHR ''a'' then 0
      else if x = CHR ''b'' then 1 else if x = CHR ''c'' then 2 else if x = CHR ''d'' then 3
      else if x = CHR ''e'' then 4 else if x = CHR ''f'' then 5 else if x = CHR ''g'' then 6
      else if x = CHR ''h'' then 7 else if x = CHR ''i'' then 8 else if x = CHR ''j'' then 9
      else if x = CHR ''k'' then 10 else if x = CHR ''l'' then 11 else if x = CHR ''m'' then 12
      else if x = CHR ''n'' then 13 else if x = CHR ''o'' then 14 else if x = CHR ''p'' then 15
      else if x = CHR ''q'' then 16 else if x = CHR ''r'' then 17 else if x = CHR ''s'' then 18
      else if x = CHR ''t'' then 19 else if x = CHR ''u'' then 20 else if x = CHR ''v'' then 21
      else if x = CHR ''w'' then 22 else if x = CHR ''x'' then 23 else if x = CHR ''y'' then 24
      else if x = CHR ''z'' then 25 else if x = CHR ''2'' then 26 else if x = CHR ''3'' then 27
      else if x = CHR ''4'' then 28 else if x = CHR ''5'' then 29 else if x = CHR ''6'' then 30
      else if x = CHR ''7'' then 31
      else InvalidBase32Character)"

definition Base32ReverseTable :: "char \<Rightarrow> octet" where
  "Base32ReverseTable c = B32ToInt c"

text \<open>
  The \<open>do ... while (group_size >= 5)\<close> loop of Encode: the body runs once before the
  test.  The state is (output, quantum, group_size); \<open>grp\<close> does not change in it.
\<close>

function Base32_Encode_emit :: "64 word \<Rightarrow> string \<times> nat \<times> nat \<Rightarrow> string \<times> nat \<times> nat" where
  "Base32_Encode_emit grp (output, quantum, group_size) =
     (let output = output @ [Base32Table ! unat (drop_bit (group_size - 5) grp AND 0x1f)];
          quantum = quantum + 1;
          group_size = group_size - 5
      in if group_size \<ge> 5 then Base32_Encode_emit grp (output, quantum, group_size)
         else (output, quantum, group_size))"
  by pat_completeness auto
termination
  by (relation "measure (\<lambda>(grp, output, quantum, group_size). group_size)") auto

declare Base32_Encode_emit.simps [simp del]

definition Base32_Encode_step ::
  "string \<times> 64 word \<times> nat \<times> nat \<Rightarrow> octet \<Rightarrow> string \<times> 64 word \<times> nat \<times> nat" where
  \<comment> \<open>Body of the loop over the input octets; the state is (output, grp, group_size, quantum).\<close>
  "Base32_Encode_step st octet =
     (case st of (output, grp, group_size, quantum) \<Rightarrow>
        let grp = push_bit 8 grp;
            grp = grp OR ucast octet;
            group_size = group_size + 8
        in case Base32_Encode_emit grp (output, quantum, group_size) of
             (output, quantum, group_size) \<Rightarrow>
               let quantum = (if quantum = 8 then 0 else quantum)
               in (output, grp, group_size, quantum))"

definition Base32_Encode :: "octet list \<Rightarrow> string" where
  "Base32_Encode input =
     (if length input = 0 then []
      else case foldl Base32_Encode_step ([], 0, 0, 0) input of
             (output, grp, group_size, quantum) \<Rightarrow>
               if group_size > 0 then
                 let grp = push_bit (5 - group_size mod 5) grp;
                     output = output @ [Base32Table ! unat (grp AND 0x1f)];
                     quantum = quantum + 1
                 in if quantum < 8
                    then output @ replicate (8 - quantum) Base32PaddingCharacter
                    else output
               else output)"

text \<open>The loop of Decode leaves at the first padding character (\<open>break\<close>).\<close>

fun Base32_Decode_loop ::
  "string \<Rightarrow> octet list \<times> 64 word \<times> nat \<Rightarrow> octet list \<times> 64 word \<times> nat" where
  "Base32_Decode_loop [] st = st"
| "Base32_Decode_loop (c # input) (output, grp, group_size) =
     (if c = Base32PaddingCharacter then (output, grp, group_size)
      else
        let octet = Base32ReverseTable c in
        if octet = InvalidBase32Character
        then Base32_Decode_loop input (output, grp, group_size)
        else
          let grp = push_bit 5 grp;
              grp = grp OR ucast (octet AND 0x1f);
              group_size = group_size + 5
          in if group_size \<ge> 8
             then Base32_Decode_loop input
                    (output @ [ucast (drop_bit (group_size - 8) grp AND 0xff)], grp,
                     group_size - 8)
             else Base32_Decode_loop input (output, grp, group_size))"

definition Base32_Decode_result :: "string \<Rightarrow> error + octet list" where
  "Base32_Decode_result input =
     (if length input = 0 then Inr []
      else case Base32_Decode_loop input ([], 0, 0) of
             (output, grp, group_size) \<Rightarrow>
               if group_size > 0 then
                 let mask = (- 1 :: 64 word);
                     mask = push_bit group_size mask
                 in if grp AND NOT mask \<noteq> 0 then Inl NonZeroPadding else Inr output
               else Inr output)"

definition Base32_Decode :: "string \<Rightarrow> octet list" where
  "Base32_Decode input = returned (Base32_Decode_result input)"

section \<open>Base64 (base64.cpp)\<close>

definition Base64Table :: string where
  "Base64Table = ''ABCDEFGHIJKLMNOPQRSTUVWXYZabcdefghijklmnopqrstuvwxyz0123456789+/''"

definition Base64PaddingCharacter :: char where
  "Base64PaddingCharacter = CHR ''=''"

definition InvalidBase64Character :: octet where
  "InvalidBase64Character = 255"

definition B64ToInt :: "char \<Rightarrow> octet" where
  "B64ToInt x =
     (if x = CHR ''A'' then 0 else if x = CHR ''B'' then 1 else if x = CHR ''C'' then 2
      else if x = CHR ''D'' then 3 else if x = CHR ''E'' then 4 else if x = CHR ''F'' then 5
      else if x = CHR ''G'' then 6 else if x = CHR ''H'' then 7 else if x = CHR ''I'' then 8
      else if x = CHR ''J'' then 9 else if x = CHR ''K'' then 10 else if x = CHR ''L'' then 11
      else if x = CHR ''M'' then 12 else if x = CHR ''N'' then 13 else if x = CHR ''O'' then 14
      else if x = CHR ''P'' then 15 else if x = CHR ''Q'' then 16 else if x = CHR ''R'' then 17
      else if x = CHR ''S'' then 18 else if x = CHR ''T'' then 19 else if x = CHR ''U'' then 20
      else if x = CHR ''V'' then 21 else if x = CHR ''W'' then 22 else if x = CHR ''X'' then 23
      else if x = CHR ''Y'' then 24 else if x = CHR ''Z'' then 25 else if x = CHR ''a'' then 26
      else if x = CHR ''b'' then 27 else if x = CHR ''c'' then 28 else if x = CHR ''d'' then 29
      else if x = CHR ''e'' then 30 else if x = CHR ''f'' then 31 else if x = CHR ''g'' then 32
      else if x = CHR ''h'' then 33 else if x = CHR ''i'' then 34 else if x = CHR ''j'' then 35
      else if x = CHR ''k'' then 36 else if x = CHR ''l'' then 37 else if x = CHR ''m'' then 38
      else if x = CHR ''n'' then 39 else if x = CHR ''o'' then 40 else if x = CHR ''p'' then 41
      else if x = CHR ''q'' then 42 else if x = CHR ''r'' then 43 else if x = CHR ''s'' then 44
      else if x = CHR ''t'' then 45 else if x = CHR ''u'' then 46 else if x = CHR ''v'' then 47
      else if x = CHR ''w'' then 48 else if x = CHR ''x'' then 49 else if x = CHR ''y'' then 50
      else if x = CHR ''z'' then 51 else if x = CHR ''0'' then 52 else if x = CHR ''1'' then 53
      else if x = CHR ''2'' then 54 else if x = CHR ''3'' then 55 else if x = CHR ''4'' then 56
      else if x = CHR ''5'' then 57 else if x = CHR ''6'' then 58 else if x = CHR ''7'' then 59
      else if x = CHR ''8'' then 60 else if x = CHR ''9'' then 61 else if x = CHR ''+'' then 62
      else if x = CHR ''/'' then 63
      else InvalidBase64Character)"

definition Base64ReverseTable :: "char \<Rightarrow> octet" where
  "Base64ReverseTable c = B64ToInt c"

definition Base64_Encode_step ::
  "string \<times> 64 word \<times> nat \<Rightarrow> octet \<Rightarrow> string \<times> 64 word \<times> nat" where
  \<comment> \<open>Body of the loop over the input octets; the state is (output, grp, group_size).\<close>
  "Base64_Encode_step st octet =
     (case st of (output, grp, group_size) \<Rightarrow>
        let grp = push_bit 8 grp;
            grp = grp OR ucast octet;
            group_size = group_size + 8
        in if group_size = 24
           then
             let output = output @ [Base64Table ! unat (drop_bit 18 grp AND 0x3f)];
                 output = output @ [Base64Table ! unat (drop_bit 12 grp AND 0x3f)];
                 output = output @ [Base64Table ! unat (drop_bit 6 grp AND 0x3f)];
                 output = output @ [Base64Table ! unat (grp AND 0x3f)]
             in (output, 0, 0)
           else (output, grp, group_size))"

definition Base64_Encode :: "octet list \<Rightarrow> string" where
  "Base64_Encode input =
     (if length input = 0 then []
      else case foldl Base64_Encode_step ([], 0, 0) input of
             (output, grp, group_size) \<Rightarrow>
               if group_size > 0 then
                 let grp = push_bit (24 - group_size) grp;
                     output = output @ [Base64Table ! unat (drop_bit 18 grp AND 0x3f)];
                     output = output @ [Base64Table ! unat (drop_bit 12 grp AND 0x3f)]
                 in if group_size = 8
                    then output @ [Base64PaddingCharacter] @ [Base64PaddingCharacter]
                    else output @ [Base64Table ! unat (drop_bit 6 grp AND 0x3f)]
                                @ [Base64PaddingCharacter]
               else output)"

fun Base64_Decode_loop ::
  "string \<Rightarrow> octet list \<times> 64 word \<times> nat \<Rightarrow> octet list \<times> 64 word \<times> nat" where
  "Base64_Decode_loop [] st = st"
| "Base64_Decode_loop (c # input) (output, grp, group_size) =
     (if c = Base64PaddingCharacter then (output, grp, group_size)
      else
        let octet = Base64ReverseTable c in
        if octet = InvalidBase64Character
        then Base64_Decode_loop input (output, grp, group_size)
        else
          let grp = push_bit 6 grp;
              grp = grp OR ucast (octet AND 0x3f);
              group_size = group_size + 6
          in if group_size = 24
             then Base64_Decode_loop input
                    (output @ [ucast (drop_bit 16 grp AND 0xff)]
                            @ [ucast (drop_bit 8 grp AND 0xff)]
                            @ [ucast (grp AND 0xff)], 0, 0)
             else Base64_Decode_loop input (output, grp, group_size))"

definition Base64_Decode_tail :: "octet list \<times> 64 word \<times> nat \<Rightarrow> octet list" where
  \<comment> \<open>The code after the loop: the partial group, if there is one.\<close>
  "Base64_Decode_tail st =
     (case st of (output, grp, group_size) \<Rightarrow>
        if group_size > 0 then
          let grp = push_bit (24 - group_size) grp;
              output = output @ [ucast (drop_bit 16 grp AND 0xff)]
          in if group_size \<ge> 16
             then
               let output = output @ [ucast (drop_bit 8 grp AND 0xff)]
               in if group_size = 24 then output @ [ucast (grp AND 0xff)] else output
             else output
        else output)"

definition Base64_Decode_result :: "string \<Rightarrow> error + octet list" where
  \<comment> \<open>Decode has no error path: the only \<open>return {}\<close> is the one for an empty input.\<close>
  "Base64_Decode_result input =
     (if length input = 0 then Inr []
      else Inr (Base64_Decode_tail (Base64_Decode_loop input ([], 0, 0))))"

definition Base64_Decode :: "string \<Rightarrow> octet list" where
  "Base64_Decode input = returned (Base64_Decode_result input)"

section \<open>Base45 (base45.cpp)\<close>

definition Base45Table :: string where
  "Base45Table = ''0123456789ABCDEFGHIJKLMNOPQRSTUVWXYZ $%*+-./:''"

definition InvalidBase45Character :: octet where
  "InvalidBase45Character = 255"

definition B45ToInt :: "char \<Rightarrow> octet" where
  "B45ToInt x =
     (if x = CHR ''0'' then 0 else if x = CHR ''1'' then 1 else if x = CHR ''2'' then 2
      else if x = CHR ''3'' then 3 else if x = CHR ''4'' then 4 else if x = CHR ''5'' then 5
      else if x = CHR ''6'' then 6 else if x = CHR ''7'' then 7 else if x = CHR ''8'' then 8
      else if x = CHR ''9'' then 9 else if x = CHR ''A'' then 10 else if x = CHR ''B'' then 11
      else if x = CHR ''C'' then 12 else if x = CHR ''D'' then 13 else if x = CHR ''E'' then 14
      else if x = CHR ''F'' then 15 else if x = CHR ''G'' then 16 else if x = CHR ''H'' then 17
      else if x = CHR ''I'' then 18 else if x = CHR ''J'' then 19 else if x = CHR ''K'' then 20
      else if x = CHR ''L'' then 21 else if x = CHR ''M'' then 22 else if x = CHR ''N'' then 23
      else if x = CHR ''O'' then 24 else if x = CHR ''P'' then 25 else if x = CHR ''Q'' then 26
      else if x = CHR ''R'' then 27 else if x = CHR ''S'' then 28 else if x = CHR ''T'' then 29
      else if x = CHR ''U'' then 30 else if x = CHR ''V'' then 31 else if x = CHR ''W'' then 32
      else if x = CHR ''X'' then 33 else if x = CHR ''Y'' then 34 else if x = CHR ''Z'' then 35
      else if x = CHR '' '' then 36 else if x = CHR ''$'' then 37 else if x = CHR ''%'' then 38
      else if x = CHR ''*'' then 39 else if x = CHR ''+'' then 40 else if x = CHR ''-'' then 41
      else if x = CHR ''.'' then 42 else if x = CHR ''/'' then 43 else if x = CHR '':'' then 44
      else InvalidBase45Character)"

definition Base45ReverseTable :: "char \<Rightarrow> octet" where
  "Base45ReverseTable c = B45ToInt c"

definition Base45_Encode_step ::
  "string \<times> 64 word \<times> nat \<Rightarrow> octet \<Rightarrow> string \<times> 64 word \<times> nat" where
  \<comment> \<open>Body of the loop over the input octets; the state is (output, grp, group_size).\<close>
  "Base45_Encode_step st octet =
     (case st of (output, grp, group_size) \<Rightarrow>
        let grp = push_bit 8 grp;
            grp = grp OR ucast octet;
            group_size = group_size + 1
        in if group_size = 2
           then
             let output = output @ [Base45Table ! unat (grp mod 45)];
                 output = output @ [Base45Table ! unat ((grp div 45) mod 45)];
                 output = output @ [Base45Table ! unat ((grp div 2025) mod 45)]
             in (output, 0, 0)
           else (output, grp, group_size))"

definition Base45_Encode :: "octet list \<Rightarrow> string" where
  "Base45_Encode input =
     (if input = [] then []
      else case foldl Base45_Encode_step ([], 0, 0) input of
             (output, grp, group_size) \<Rightarrow>
               if group_size > 0 then
                 let output = output @ [Base45Table ! unat (grp mod 45)];
                     output = output @ [Base45Table ! unat ((grp div 45) mod 45)]
                 in output
               else output)"

definition Base45_Decode_step ::
  "octet list \<times> 64 word \<times> nat \<Rightarrow> char \<Rightarrow> octet list \<times> 64 word \<times> nat" where
  \<comment> \<open>Body of the loop over the input characters; the state is (output, grp, group_size).\<close>
  "Base45_Decode_step st c =
     (case st of (output, grp, group_size) \<Rightarrow>
        let octet = Base45ReverseTable c in
        if octet = InvalidBase45Character then (output, grp, group_size)
        else
          let grp = push_bit 8 grp;
              grp = grp OR ucast octet;
              group_size = group_size + 1
          in if group_size = 3
             then
               let octet_pair = (drop_bit 16 grp AND 0xff)
                              + (drop_bit 8 grp AND 0xff) * 45
                              + (grp AND 0xff) * 2025;
                   output = output @ [ucast (drop_bit 8 octet_pair AND 0xff)];
                   output = output @ [ucast (octet_pair AND 0xff)]
               in (output, 0, 0)
             else (output, grp, group_size))"

definition Base45_Decode_result :: "string \<Rightarrow> error + octet list" where
  "Base45_Decode_result input =
     (if input = [] then Inr []
      else case foldl Base45_Decode_step ([], 0, 0) input of
             (output, grp, group_size) \<Rightarrow>
               if group_size > 0 then
                 if group_size \<noteq> 2 then Inl LengthError
                 else Inr (output @
                        [ucast (((drop_bit 8 grp AND 0xff) + (grp AND 0xff) * 45) AND 0xff)])
               else Inr output)"

definition Base45_Decode :: "string \<Rightarrow> octet list" where
  "Base45_Decode input = returned (Base45_Decode_result input)"

section \<open>Base58 (base58.cpp)\<close>

definition Base58Table :: string where
  "Base58Table = ''123456789ABCDEFGHJKLMNPQRSTUVWXYZabcdefghijkmnopqrstuvwxyz''"

definition InvalidBase58Character :: octet where
  "InvalidBase58Character = 255"

definition B58ToInt :: "char \<Rightarrow> octet" where
  "B58ToInt x =
     (if x = CHR ''1'' then 0 else if x = CHR ''2'' then 1 else if x = CHR ''3'' then 2
      else if x = CHR ''4'' then 3 else if x = CHR ''5'' then 4 else if x = CHR ''6'' then 5
      else if x = CHR ''7'' then 6 else if x = CHR ''8'' then 7 else if x = CHR ''9'' then 8
      else if x = CHR ''A'' then 9 else if x = CHR ''B'' then 10 else if x = CHR ''C'' then 11
      else if x = CHR ''D'' then 12 else if x = CHR ''E'' then 13 else if x = CHR ''F'' then 14
      else if x = CHR ''G'' then 15 else if x = CHR ''H'' then 16 else if x = CHR ''J'' then 17
      else if x = CHR ''K'' then 18 else if x = CHR ''L'' then 19 else if x = CHR ''M'' then 20
      else if x = CHR ''N'' then 21 else if x = CHR ''P'' then 22 else if x = CHR ''Q'' then 23
      else if x = CHR ''R'' then 24 else if x = CHR ''S'' then 25 else if x = CHR ''T'' then 26
      else if x = CHR ''U'' then 27 else if x = CHR ''V'' then 28 else if x = CHR ''W'' then 29
      else if x = CHR ''X'' then 30 else if x = CHR ''Y'' then 31 else if x = CHR ''Z'' then 32
      else if x = CHR ''a'' then 33 else if x = CHR ''b'' then 34 else if x = CHR ''c'' then 35
      else if x = CHR ''d'' then 36 else if x = CHR ''e'' then 37 else if x = CHR ''f'' then 38
      else if x = CHR ''g'' then 39 else if x = CHR ''h'' then 40 else if x = CHR ''i'' then 41
      else if x = CHR ''j'' then 42 else if x = CHR ''k'' then 43 else if x = CHR ''m'' then 44
      else if x = CHR ''n'' then 45 else if x = CHR ''o'' then 46 else if x = CHR ''p'' then 47
      else if x = CHR ''q'' then 48 else if x = CHR ''r'' then 49 else if x = CHR ''s'' then 50
      else if x = CHR ''t'' then 51 else if x = CHR ''u'' then 52 else if x = CHR ''v'' then 53
      else if x = CHR ''w'' then 54 else if x = CHR ''x'' then 55 else if x = CHR ''y'' then 56
      else if x = CHR ''z'' then 57
      else InvalidBase58Character)"

text \<open>
  The reverse table of Base58 holds \<open>B58ToInt(i)\<close> at every index \<open>i\<close> but three: the
  initialisers at the indices 45, 145 and 245 are \<open>B58ToInt(58)\<close>, \<open>B58ToInt(158)\<close> and
  \<open>B58ToInt(258)\<close>.  No character has the value 258, so the last one is the invalid
  marker.
\<close>

definition Base58ReverseTable :: "char \<Rightarrow> octet" where
  "Base58ReverseTable c =
     (if c = CHR 0x2D then B58ToInt (CHR 0x3A)
      else if c = CHR 0x91 then B58ToInt (CHR 0x9E)
      else if c = CHR 0xF5 then InvalidBase58Character
      else B58ToInt c)"

definition isspace :: "char \<Rightarrow> bool" where
  \<comment> \<open>\<open>std::isspace\<close> in the default C locale: space, \<open>\t\<close>, \<open>\n\<close>, \<open>\v\<close>, \<open>\f\<close>, \<open>\r\<close>.\<close>
  "isspace c = (c = CHR 0x20 \<or> c = CHR 0x09 \<or> c = CHR 0x0A \<or> c = CHR 0x0B
                \<or> c = CHR 0x0C \<or> c = CHR 0x0D)"

text \<open>
  A \<open>std::string\<close> of size \<open>n\<close> is followed by a terminating null character, and
  \<open>operator[]\<close> does not check its index: \<open>s[s.size()]\<close> refers to that terminator.
  A string is modelled by its \<open>n\<close> characters.  Reading at the index \<open>n\<close> gives the
  null character; writing there leaves the \<open>n\<close> characters as they are (a list update
  beyond the end of a list changes nothing).
\<close>

definition string_at :: "string \<Rightarrow> nat \<Rightarrow> char" where
  "string_at s i = (if i < length s then s ! i else CHR 0x00)"

definition resize :: "'a list \<Rightarrow> nat \<Rightarrow> 'a \<Rightarrow> 'a list" where
  \<comment> \<open>\<open>resize(n, v)\<close> of a string or vector: truncate, or extend with copies of \<open>v\<close>.\<close>
  "resize xs n v = take n xs @ replicate (n - length xs) v"

fun Base58_leading_zeros :: "octet list \<Rightarrow> nat" where
  \<comment> \<open>\<open>for (i = 0; (i < input_length) && (input[i] == 0); i++) zeros++\<close>\<close>
  "Base58_leading_zeros [] = 0"
| "Base58_leading_zeros (b # input) = (if b = 0 then Suc (Base58_leading_zeros input) else 0)"

text \<open>
  The inner loop of Encode, \<open>for (j = zeros; j < max_output_length; j++)\<close>, on the state
  (carry, output, output_length).  \<open>carry\<close> is a \<open>std::uint32_t\<close>.  The digits are
  kept in the characters of \<open>output\<close>.
\<close>

function Base58_Encode_inner ::
  "nat \<Rightarrow> nat \<Rightarrow> nat \<Rightarrow> 32 word \<times> string \<times> nat \<Rightarrow> 32 word \<times> string \<times> nat" where
  "Base58_Encode_inner zeros max_output_length j (carry, output, output_length) =
     (if j < max_output_length then
        if j = output_length \<and> carry = 0 then (carry, output, output_length)
        else
          let output_length = (if j = output_length then output_length + 1 else output_length);
              carry = carry + push_bit 8 (of_nat (of_char (output ! (j - zeros))));
              output = output[j - zeros := char_of (unat (carry mod 58))];
              carry = carry div 58
          in Base58_Encode_inner zeros max_output_length (j + 1) (carry, output, output_length)
      else (carry, output, output_length))"
  by pat_completeness auto
termination
  by (relation "measure (\<lambda>(zeros, max_output_length, j, st). max_output_length - j)") auto

declare Base58_Encode_inner.simps [simp del]

fun Base58_Encode_outer ::
  "nat \<Rightarrow> nat \<Rightarrow> octet list \<Rightarrow> string \<times> nat \<Rightarrow> error + string \<times> nat" where
  \<comment> \<open>The loop over the octets after the leading zeros; the state is (output, output_length).\<close>
  "Base58_Encode_outer zeros max_output_length [] st = Inr st"
| "Base58_Encode_outer zeros max_output_length (b # input) (output, output_length) =
     (let carry = (ucast b :: 32 word)
      in case Base58_Encode_inner zeros max_output_length zeros (carry, output, output_length) of
           (carry, output, output_length) \<Rightarrow>
             if carry > 0 then Inl CarryRemains
             else Base58_Encode_outer zeros max_output_length input (output, output_length))"

text \<open>
  The character substitution, \<open>for (i = 0; i <= output_length; i++)\<close>.  Next to the string
  the model records, in \<open>beyond\<close>, every index the loop uses that is not smaller than the
  size of the string at that moment.
\<close>

function Base58_Encode_subst :: "nat \<Rightarrow> nat \<Rightarrow> string \<times> nat list \<Rightarrow> string \<times> nat list" where
  "Base58_Encode_subst output_length i (output, beyond) =
     (if i \<le> output_length then
        Base58_Encode_subst output_length (i + 1)
          (output[i := Base58Table ! of_char (string_at output i)],
           (if i < length output then beyond else beyond @ [i]))
      else (output, beyond))"
  by pat_completeness auto
termination
  by (relation "measure (\<lambda>(output_length, i, st). Suc output_length - i)") auto

declare Base58_Encode_subst.simps [simp del]

definition Base58_Encode_run :: "octet list \<Rightarrow> error + string \<times> nat list" where
  \<comment> \<open>Encode, returning the string and the indices recorded by the substitution loop.\<close>
  "Base58_Encode_run input =
     (let input_length = length input in
      if input_length = 0 then Inr ([], [])
      else
        let max_output_length = input_length * 137 div 100 + 1;
            output = replicate max_output_length (CHR 0x00);
            zeros = Base58_leading_zeros input;
            output_length = zeros
        in case Base58_Encode_outer zeros max_output_length (drop zeros input)
                  (output, output_length) of
             Inl e \<Rightarrow> Inl e
           | Inr (output, output_length) \<Rightarrow>
               let output = resize output output_length (CHR 0x00)
               in case Base58_Encode_subst output_length 0 (output, []) of
                    (output, beyond) \<Rightarrow> Inr (rev output, beyond))"

definition Base58_Encode_result :: "octet list \<Rightarrow> error + string" where
  "Base58_Encode_result input = map_sum id fst (Base58_Encode_run input)"

definition Base58_Encode :: "octet list \<Rightarrow> string" where
  "Base58_Encode input = returned (Base58_Encode_result input)"

fun Base58_Decode_leading :: "string \<Rightarrow> nat \<times> nat \<Rightarrow> nat \<times> nat" where
  \<comment> \<open>The loop that counts leading zeros; the state is (zeros, digits_start).\<close>
  "Base58_Decode_leading [] st = st"
| "Base58_Decode_leading (c # input) (zeros, digits_start) =
     (if c = CHR ''1'' then Base58_Decode_leading input (zeros + 1, digits_start + 1)
      else if isspace c then Base58_Decode_leading input (zeros, digits_start + 1)
      else (zeros, digits_start))"

function Base58_Decode_inner ::
  "nat \<Rightarrow> nat \<Rightarrow> 32 word \<times> octet list \<times> nat \<Rightarrow> 32 word \<times> octet list \<times> nat" where
  \<comment> \<open>\<open>for (j = 0; j < max_output_length; j++)\<close> on (carry, output, output_length).\<close>
  "Base58_Decode_inner max_output_length j (carry, output, output_length) =
     (if j < max_output_length then
        if j = output_length \<and> carry = 0 then (carry, output, output_length)
        else
          let output_length = (if j = output_length then output_length + 1 else output_length);
              carry = carry + 58 * ucast (output ! j);
              output = output[j := ucast (carry mod 256)];
              carry = carry div 256
          in Base58_Decode_inner max_output_length (j + 1) (carry, output, output_length)
      else (carry, output, output_length))"
  by pat_completeness auto
termination
  by (relation "measure (\<lambda>(max_output_length, j, st). max_output_length - j)") auto

declare Base58_Decode_inner.simps [simp del]

fun Base58_Decode_digits ::
  "nat \<Rightarrow> string \<Rightarrow> octet list \<times> nat \<Rightarrow> error + octet list \<times> nat" where
  \<comment> \<open>The loop over the characters from \<open>digits_start\<close> on; the state is (output, output_length).\<close>
  "Base58_Decode_digits max_output_length [] st = Inr st"
| "Base58_Decode_digits max_output_length (c # input) (output, output_length) =
     (if isspace c then Base58_Decode_digits max_output_length input (output, output_length)
      else
        let carry = (ucast (Base58ReverseTable c) :: 32 word)
        in if carry = ucast InvalidBase58Character then Inl InvalidCharacter
           else case Base58_Decode_inner max_output_length 0 (carry, output, output_length) of
                  (carry, output, output_length) \<Rightarrow>
                    if carry > 0 then Inl CarryRemains
                    else Base58_Decode_digits max_output_length input (output, output_length))"

definition Base58_Decode_result :: "string \<Rightarrow> error + octet list" where
  "Base58_Decode_result input =
     (let input_length = length input in
      if input_length = 0 then Inr []
      else
        let max_output_length = input_length;
            output = replicate max_output_length (0 :: octet)
        in case Base58_Decode_leading input (0, 0) of
             (zeros, digits_start) \<Rightarrow>
               (case Base58_Decode_digits max_output_length (drop digits_start input) (output, 0) of
                  Inl e \<Rightarrow> Inl e
                | Inr (output, output_length) \<Rightarrow>
                    let output = resize output output_length 0;
                        output = (if zeros > 0 then resize output (length output + zeros) 0
                                  else output)
                    in Inr (rev output)))"

definition Base58_Decode :: "string \<Rightarrow> octet list" where
  "Base58_Decode input = returned (Base58_Decode_result input)"

section \<open>Notions used to state the properties\<close>

text \<open>
  The definitions of this section are not code of the library.  They name what the
  statements below talk about: the valid characters of a text, the digits they stand
  for, and the number a sequence of digits denotes.
\<close>

definition Base16_values :: "string \<Rightarrow> octet list" where
  \<comment> \<open>The nibbles of the valid characters of a text, in order.\<close>
  "Base16_values input =
     map Base16ReverseTable
       (filter (\<lambda>c. Base16ReverseTable c \<noteq> InvalidBase16Character) input)"

fun Base16_octets :: "octet list \<Rightarrow> octet list" where
  \<comment> \<open>One octet for every two nibbles, the first nibble in the high half.\<close>
  "Base16_octets (h # l # rest) = (push_bit 4 h OR l) # Base16_octets rest"
| "Base16_octets rest = []"

definition Base45_values :: "string \<Rightarrow> octet list" where
  \<comment> \<open>The values of the valid characters of a text, in order.\<close>
  "Base45_values input =
     map Base45ReverseTable
       (filter (\<lambda>c. Base45ReverseTable c \<noteq> InvalidBase45Character) input)"

fun Base45_full_groups :: "octet list \<Rightarrow> octet list" where
  \<comment> \<open>Two octets for every full group of three values; a shorter rest gives nothing.\<close>
  "Base45_full_groups (c0 # c1 # c2 # rest) =
     (let v = unat c0 + unat c1 * 45 + unat c2 * 2025
      in [of_nat ((v mod 65536) div 256), of_nat (v mod 256)]) @ Base45_full_groups rest"
| "Base45_full_groups rest = []"

definition Base45_pending :: "octet list \<Rightarrow> 64 word" where
  \<comment> \<open>The register \<open>grp\<close> of Base45 Decode after shifting in the given values.\<close>
  "Base45_pending p = foldl (\<lambda>g c. push_bit 8 g OR ucast c) 0 p"

fun Base45_trailing :: "octet list \<Rightarrow> octet list" where
  \<comment> \<open>What is left of a sequence of values after its full groups of three.\<close>
  "Base45_trailing (c0 # c1 # c2 # rest) = Base45_trailing rest"
| "Base45_trailing rest = rest"

definition Base32_symbol :: "64 word \<Rightarrow> nat \<Rightarrow> char" where
  \<comment> \<open>The character for the 5 bits of \<open>grp\<close> above its lowest \<open>s\<close> bits.\<close>
  "Base32_symbol grp s = Base32Table ! unat (drop_bit s grp AND 0x1f)"

subsection \<open>Numbers as digit sequences (for Base58)\<close>

fun le_val :: "nat \<Rightarrow> nat list \<Rightarrow> nat" where
  \<comment> \<open>The number denoted by digits in base \<open>b\<close>, least significant digit first.\<close>
  "le_val b [] = 0"
| "le_val b (d # ds) = d + b * le_val b ds"

definition be_val :: "nat \<Rightarrow> nat list \<Rightarrow> nat" where
  \<comment> \<open>The number denoted by digits in base \<open>b\<close>, most significant digit first.\<close>
  "be_val b ds = foldl (\<lambda>a d. a * b + d) 0 ds"

text \<open>
  One pass of the conversion loops of Base58, on natural numbers: multiply the number held
  in the digits \<open>ds\<close> (base \<open>b\<close>, least significant first, \<open>len\<close> digits in use) by
  \<open>m\<close> and add \<open>carry\<close>, from position \<open>j\<close> on, within \<open>cap\<close> positions.  The inner
  loops of Encode and Decode are shown below to compute this function.
\<close>

function muladd :: "nat \<Rightarrow> nat \<Rightarrow> nat \<Rightarrow> nat \<Rightarrow> nat \<Rightarrow> nat list \<Rightarrow> nat \<Rightarrow> nat \<times> nat list \<times> nat" where
  "muladd b m cap j carry ds len =
     (if j < cap then
        if j = len \<and> carry = 0 then (carry, ds, len)
        else muladd b m cap (j + 1)
               ((carry + m * ds ! j) div b) (ds[j := (carry + m * ds ! j) mod b])
               (if j = len then len + 1 else len)
      else (carry, ds, len))"
  by pat_completeness auto
termination
  by (relation "measure (\<lambda>(b, m, cap, j, carry, ds, len). cap - j)") auto

declare muladd.simps [simp del]

definition bignum :: "nat \<Rightarrow> nat list \<Rightarrow> nat \<Rightarrow> nat \<Rightarrow> bool" where
  \<comment> \<open>The buffer \<open>ds\<close> holds the number \<open>N\<close> in its first \<open>len\<close> digits (base \<open>b\<close>,
      least significant first, no leading zero digit) and zeros after them.\<close>
  "bignum b ds len N \<longleftrightarrow>
     len \<le> length ds
     \<and> (\<forall>i < length ds. len \<le> i \<longrightarrow> ds ! i = 0)
     \<and> (\<forall>i < len. ds ! i < b)
     \<and> (len = 0 \<or> ds ! (len - 1) \<noteq> 0)
     \<and> le_val b ds = N"

definition be_acc :: "nat \<Rightarrow> nat \<Rightarrow> nat list \<Rightarrow> nat" where
  \<comment> \<open>Appending digits (most significant first) to the number \<open>N\<close>.\<close>
  "be_acc b N ds = foldl (\<lambda>a d. a * b + d) N ds"

definition Base58_substitute :: "char \<Rightarrow> char" where
  \<comment> \<open>The character substitution of Encode: \<open>Base58Table[static_cast<std::uint8_t>(c)]\<close>.\<close>
  "Base58_substitute c = Base58Table ! of_char c"


text \<open>
  The code of Base64 Encode after its loop, as a function of the state the loop ends
  in, so that lemmas can speak about the loop started in any state.
\<close>

definition Base64_Encode_end :: "string \<times> 64 word \<times> nat \<Rightarrow> string" where
  "Base64_Encode_end st =
     (case st of (output, grp, group_size) \<Rightarrow>
        if group_size > 0 then
          let grp = push_bit (24 - group_size) grp;
              output = output @ [Base64Table ! unat (drop_bit 18 grp AND 0x3f)];
              output = output @ [Base64Table ! unat (drop_bit 12 grp AND 0x3f)]
          in if group_size = 8
             then output @ [Base64PaddingCharacter] @ [Base64PaddingCharacter]
             else output @ [Base64Table ! unat (drop_bit 6 grp AND 0x3f)]
                         @ [Base64PaddingCharacter]
        else output)"

text \<open>
  The code of Base32 Encode and of Base32 Decode after their loops, as functions of the
  state the loop ends in.
\<close>

definition Base32_Encode_end :: "string \<times> 64 word \<times> nat \<times> nat \<Rightarrow> string" where
  "Base32_Encode_end st =
     (case st of (output, grp, group_size, quantum) \<Rightarrow>
        if group_size > 0 then
          let grp = push_bit (5 - group_size mod 5) grp;
              output = output @ [Base32Table ! unat (grp AND 0x1f)];
              quantum = quantum + 1
          in if quantum < 8
             then output @ replicate (8 - quantum) Base32PaddingCharacter
             else output
        else output)"

definition Base32_Decode_end :: "octet list \<times> 64 word \<times> nat \<Rightarrow> error + octet list" where
  "Base32_Decode_end st =
     (case st of (output, grp, group_size) \<Rightarrow>
        if group_size > 0 then
          let mask = (- 1 :: 64 word);
              mask = push_bit group_size mask
          in if grp AND NOT mask \<noteq> 0 then Inl NonZeroPadding else Inr output
        else Inr output)"

fun Base32_symbols :: "64 word \<Rightarrow> nat \<Rightarrow> string" where
  \<comment> \<open>The characters for the lowest \<open>5 * m\<close> bits of a word, five bits at a time from the top.\<close>
  "Base32_symbols X 0 = []"
| "Base32_symbols X (Suc m) = Base32_symbol X (5 * m) # Base32_symbols X m"

fun Base32_regroup :: "64 word \<Rightarrow> nat \<Rightarrow> nat \<Rightarrow> octet list \<times> nat" where
  \<comment> \<open>The octets that \<open>m\<close> more groups of five bits complete when \<open>gs\<close> bits are pending,
      read from the lowest \<open>5 * m + gs\<close> bits of a word, and the number of bits left.\<close>
  "Base32_regroup X 0 gs = ([], gs)"
| "Base32_regroup X (Suc m) gs =
     (if gs + 5 \<ge> 8
      then case Base32_regroup X m (gs + 5 - 8) of
             (bs, r) \<Rightarrow> (ucast (drop_bit (5 * m + (gs + 5 - 8)) X AND 0xff) # bs, r)
      else Base32_regroup X m (gs + 5))"
section \<open>Words, natural numbers and bits\<close>

lemma and15: "(x::'a::len word) AND 15 = take_bit 4 x"
  using take_bit_eq_mask [of 4 x] by (simp add: mask_eq_exp_minus_1)
lemma and255: "(x::'a::len word) AND 255 = take_bit 8 x"
  using take_bit_eq_mask [of 8 x] by (simp add: mask_eq_exp_minus_1)

lemma push_or_take_nat: "push_bit n (a::nat) OR take_bit n b = a * 2 ^ n + take_bit n b"
proof -
  have "push_bit n a AND take_bit n b = 0"
    by (auto simp: bit_eq_iff bit_simps)
  then have "push_bit n a + take_bit n b = push_bit n a OR take_bit n b"
    by (rule disjunctive_add_eq_or)
  then show ?thesis by (simp add: push_bit_eq_mult)
qed

lemma push_or_nat: "b < 2 ^ n \<Longrightarrow> push_bit n (a::nat) OR b = a * 2 ^ n + b"
  using push_or_take_nat [of n a b] by (simp add: take_bit_nat_eq_self)

lemma unat_octet_less: "unat (b::octet) < 256"
  using unsigned_less [of b, where 'a = nat] by simp

lemma unat_ucast_octet: "unat (ucast (b::octet) :: 64 word) = unat b"
  using unat_octet_less [of b] by (simp add: unsigned_ucast_eq take_bit_nat_eq_self)

lemma unat_push8_or:
  assumes "unat (x::64 word) < 2 ^ 56"
  shows "unat (push_bit 8 x OR ucast (b::octet)) = unat x * 256 + unat b"
proof -
  have "unat x * 2 ^ 8 < 2 ^ 56 * (2 ^ 8 :: nat)"
    using assms by (rule mult_strict_right_mono) simp
  then have "unat x * unat (256 :: 64 word) < 2 ^ LENGTH(64)"
    by simp
  then have "unat (x * 256) = unat x * unat (256 :: 64 word)"
    by (simp only: unat_mult_lem)
  then have p: "unat (push_bit 8 x) = unat x * 256"
    by (simp add: push_bit_eq_mult)
  have "unat (push_bit 8 x OR ucast b) = unat (push_bit 8 x) OR unat b"
    unfolding unsigned_or_eq unat_ucast_octet ..
  also have "\<dots> = push_bit 8 (unat x) OR unat b"
    unfolding p by (simp add: push_bit_eq_mult)
  also have "\<dots> = unat x * 256 + unat b"
    using push_or_nat [of "unat b" 8 "unat x"] unat_octet_less [of b] by simp
  finally show ?thesis .
qed

lemma pair_val: "unat (push_bit 8 (push_bit 8 (0::64 word) OR ucast b0) OR ucast (b1::octet)) = unat (b0::octet) * 256 + unat b1"
proof -
  have "unat (push_bit 8 (0::64 word) OR ucast b0) = unat b0"
    using unat_push8_or [of 0 b0] by simp
  moreover have "unat b0 < 2 ^ 56" using unat_octet_less [of b0] by simp
  ultimately show ?thesis
    using unat_push8_or [of "push_bit 8 (0::64 word) OR ucast b0" b1] by simp
qed

subsection \<open>Base45: encoding\<close>

lemma Base45_Encode_step_pair:
  "foldl Base45_Encode_step (out, 0, 0) (b0 # b1 # rest) =
   foldl Base45_Encode_step
     (out @ [Base45Table ! ((unat b0 * 256 + unat b1) mod 45),
             Base45Table ! ((unat b0 * 256 + unat b1) div 45 mod 45),
             Base45Table ! ((unat b0 * 256 + unat b1) div 2025 mod 45)], 0, 0) rest"
  using pair_val [of b0 b1]
  by (simp add: Base45_Encode_step_def Let_def unat_mod unat_div)

lemma Base45_Encode_step_single:
  "foldl Base45_Encode_step (out, 0, 0) [b] = (out, ucast b, 1)"
  by (simp add: Base45_Encode_step_def)

lemma Base45_Encode_loop_prefix:
  "foldl Base45_Encode_step (out, 0, 0) xs =
   (case foldl Base45_Encode_step ([], 0, 0) xs of (output, grp, n) \<Rightarrow> (out @ output, grp, n))"
proof (induction xs arbitrary: out rule: induct_list012)
  case 1
  show ?case by simp
next
  case (2 b)
  show ?case by (simp add: Base45_Encode_step_def)
next
  case (3 b0 b1 rest)
  show ?case
    unfolding Base45_Encode_step_pair
    by (subst "3.IH"(1)) (subst (2) "3.IH"(1), simp split: prod.splits)
qed

text \<open>
  Claim C7.  Base45 Encode works on pairs of octets: a full pair, read as the 16-bit
  big-endian value \<open>v\<close>, appends the three characters \<open>table[v % 45]\<close>,
  \<open>table[(v / 45) % 45]\<close>, \<open>table[(v / 2025) % 45]\<close> in this order and the rest
  of the input is encoded after them; a single trailing octet \<open>v\<close> gives the two
  characters \<open>table[v % 45]\<close>, \<open>table[(v / 45) % 45]\<close>; the text "AB" (octets
  0x41, 0x42) is encoded as "BB8".
\<close>

theorem Base45_Encode_pairs:
  "Base45_Encode [] = []
   \<and> Base45_Encode (b0 # b1 # rest) =
       (let v = unat b0 * 256 + unat b1
        in [Base45Table ! (v mod 45), Base45Table ! (v div 45 mod 45),
            Base45Table ! (v div 2025 mod 45)]) @ Base45_Encode rest
   \<and> Base45_Encode [b] =
       (let v = unat b in [Base45Table ! (v mod 45), Base45Table ! (v div 45 mod 45)])
   \<and> Base45_Encode [0x41, 0x42] = ''BB8''"
proof -
  let ?v = "unat b0 * 256 + unat b1"
  let ?cs = "[Base45Table ! (?v mod 45), Base45Table ! (?v div 45 mod 45),
              Base45Table ! (?v div 2025 mod 45)]"
  have single: "Base45_Encode [b] =
      [Base45Table ! (unat b mod 45), Base45Table ! (unat b div 45 mod 45)]" for b
    by (simp add: Base45_Encode_def Base45_Encode_step_def unat_mod unat_div unat_ucast_octet)
  have pair: "Base45_Encode (b0 # b1 # rest) = ?cs @ Base45_Encode rest"
  proof (cases "rest = []")
    case True
    then show ?thesis
      using Base45_Encode_step_pair [of "[]" b0 b1 "[]"] by (simp add: Base45_Encode_def)
  next
    case False
    obtain outp grp n where st: "foldl Base45_Encode_step ([], 0, 0) rest = (outp, grp, n)"
      by (cases "foldl Base45_Encode_step ([], 0, 0) rest") auto
    have "foldl Base45_Encode_step ([], 0, 0) (b0 # b1 # rest) = (?cs @ outp, grp, n)"
      using Base45_Encode_step_pair [of "[]" b0 b1 rest]
            Base45_Encode_loop_prefix [of ?cs rest] st by simp
    with False st show ?thesis
      by (simp add: Base45_Encode_def Let_def)
  qed
  have ex: "Base45_Encode [0x41, 0x42] = ''BB8''"
    by (simp add: Base45_Encode_def Base45_Encode_step_def Base45Table_def)
  show ?thesis
    using single pair ex by (simp add: Base45_Encode_def Let_def)
qed


subsection \<open>Base45: decoding\<close>

lemma ucast_low_octet:
  fixes w :: "64 word"
  shows "(ucast (w AND 0xff) :: octet) = of_nat (unat w mod 256)"
  unfolding word_unat_eq_iff unsigned_ucast_eq unat_of_nat and255 unsigned_take_bit_eq
  by (simp add: take_bit_eq_mod)

lemma unat_drop8_mod:
  fixes w :: "64 word"
  shows "unat (drop_bit 8 w) mod 256 = unat w mod 65536 div 256"
  using mod_mult2_eq [of "unat w" 256 256]
  by (simp add: unat_drop_bit_eq drop_bit_eq_div [where ?'a = nat])

lemma Base45_pending_bytes:
  "drop_bit 16 (Base45_pending [c0, c1, c2]) AND 0xff = ucast c0"
  "drop_bit 8 (Base45_pending [c0, c1, c2]) AND 0xff = ucast c1"
  "Base45_pending [c0, c1, c2] AND 0xff = ucast c2"
  "drop_bit 8 (Base45_pending [c0, c1]) AND 0xff = ucast c0"
  "Base45_pending [c0, c1] AND 0xff = ucast c1"
  unfolding Base45_pending_def and255
  by (rule bit_word_eqI; auto simp: bit_simps dest: bit_imp_le_length)+

lemma unat_octet_pair:
  "unat (ucast (c0::octet) + ucast (c1::octet) * 45 + ucast (c2::octet) * (2025 :: 64 word))
   = unat c0 + unat c1 * 45 + unat c2 * 2025"
proof -
  have b: "unat c0 < 256" "unat c1 < 256" "unat c2 < 256"
    by (rule unat_octet_less)+
  have m1: "unat (ucast c1 * (45 :: 64 word)) = unat c1 * 45"
    using b by (simp add: unat_word_ariths unat_ucast_octet)
  have m2: "unat (ucast c2 * (2025 :: 64 word)) = unat c2 * 2025"
    using b by (simp add: unat_word_ariths unat_ucast_octet)
  have a1: "unat (ucast c0 + ucast c1 * (45 :: 64 word)) = unat c0 + unat c1 * 45"
    using b by (simp add: unat_word_ariths(1) m1 unat_ucast_octet)
  show ?thesis
    using b by (simp add: unat_word_ariths(1) [of "ucast c0 + ucast c1 * 45"] a1 m2)
qed

lemma Base45_Decode_full_group:
  "(let octet_pair = (drop_bit 16 (Base45_pending [c0, c1, c2]) AND 0xff)
                   + (drop_bit 8 (Base45_pending [c0, c1, c2]) AND 0xff) * 45
                   + (Base45_pending [c0, c1, c2] AND 0xff) * 2025
    in [ucast (drop_bit 8 octet_pair AND 0xff), ucast (octet_pair AND 0xff)])
   = Base45_full_groups [c0, c1, c2]"
proof -
  let ?v = "unat c0 + unat c1 * 45 + unat c2 * 2025"
  let ?w = "ucast c0 + ucast c1 * 45 + ucast c2 * (2025 :: 64 word)"
  have "[ucast (drop_bit 8 ?w AND 0xff), ucast (?w AND 0xff)] =
        [of_nat (unat ?w mod 65536 div 256), of_nat (unat ?w mod 256) :: octet]"
    by (simp only: ucast_low_octet unat_drop8_mod)
  also have "\<dots> = [of_nat (?v mod 65536 div 256), of_nat (?v mod 256)]"
    by (simp only: unat_octet_pair)
  also have "\<dots> = Base45_full_groups [c0, c1, c2]"
    by (simp add: Let_def)
  finally show ?thesis
    by (simp only: Base45_pending_bytes Let_def)
qed

lemma Base45_Decode_step_invalid:
  "Base45ReverseTable c = InvalidBase45Character \<Longrightarrow> Base45_Decode_step st c = st"
  by (cases st) (simp add: Base45_Decode_step_def)

lemma Base45_pending_snoc:
  "push_bit 8 (Base45_pending p) OR ucast c = Base45_pending (p @ [c])"
  by (simp add: Base45_pending_def)

lemma Base45_Decode_step_valid:
  assumes "Base45ReverseTable c \<noteq> InvalidBase45Character" and "length p < 3"
  shows "Base45_Decode_step (out, Base45_pending p, length p) c =
         (if length p = 2
          then (out @ Base45_full_groups (p @ [Base45ReverseTable c]), Base45_pending [], 0)
          else (out, Base45_pending (p @ [Base45ReverseTable c]), length (p @ [Base45ReverseTable c])))"
proof (cases "length p = 2")
  case True
  then obtain c0 c1 where p: "p = [c0, c1]"
    by (cases p; cases "tl p"; cases "tl (tl p)") auto
  show ?thesis
    using assms(1) Base45_Decode_full_group [of c0 c1 "Base45ReverseTable c"]
    unfolding p Base45_Decode_step_def
    by (simp add: Base45_pending_snoc Let_def) (simp add: Base45_pending_def)
next
  case False
  with assms show ?thesis
    unfolding Base45_Decode_step_def
    by (simp add: Base45_pending_snoc Let_def)
qed

lemma Base45_groups_append:
  "length p = 2 \<Longrightarrow>
   Base45_full_groups (p @ c # q) = Base45_full_groups (p @ [c]) @ Base45_full_groups q"
  "length p = 2 \<Longrightarrow> Base45_trailing (p @ c # q) = Base45_trailing q"
  by (cases p; cases "tl p"; cases "tl (tl p)"; auto simp: Let_def)+

lemma Base45_Decode_loop:
  "length p < 3 \<Longrightarrow>
   foldl Base45_Decode_step (out, Base45_pending p, length p) input =
   (out @ Base45_full_groups (p @ Base45_values input),
    Base45_pending (Base45_trailing (p @ Base45_values input)),
    length (Base45_trailing (p @ Base45_values input)))"
proof (induction input arbitrary: out p)
  case Nil
  then have "Base45_full_groups p = [] \<and> Base45_trailing p = p"
    by (cases p; cases "tl p"; cases "tl (tl p)") auto
  then show ?case by (simp add: Base45_values_def)
next
  case (Cons c input)
  show ?case
  proof (cases "Base45ReverseTable c = InvalidBase45Character")
    case True
    then show ?thesis
      using Cons.IH [OF Cons.prems, of out]
      by (simp add: Base45_Decode_step_invalid Base45_values_def)
  next
    case False
    let ?r = "Base45ReverseTable c"
    have vals: "Base45_values (c # input) = ?r # Base45_values input"
      using False by (simp add: Base45_values_def)
    show ?thesis
    proof (cases "length p = 2")
      case True
      have "foldl Base45_Decode_step (out, Base45_pending p, length p) (c # input) =
            foldl Base45_Decode_step
              (out @ Base45_full_groups (p @ [?r]), Base45_pending [], length ([]::octet list)) input"
        using Base45_Decode_step_valid [OF False Cons.prems, of out] True by simp
      also have "\<dots> = (out @ Base45_full_groups (p @ [?r]) @ Base45_full_groups (Base45_values input),
                       Base45_pending (Base45_trailing (Base45_values input)),
                       length (Base45_trailing (Base45_values input)))"
        using Cons.IH [of "[]" "out @ Base45_full_groups (p @ [?r])"] by simp
      finally show ?thesis
        using Base45_groups_append [OF True, of ?r "Base45_values input"]
        by (simp add: vals)
    next
      case False2: False
      have l: "length (p @ [?r]) < 3" using Cons.prems False2 by simp
      have "foldl Base45_Decode_step (out, Base45_pending p, length p) (c # input) =
            foldl Base45_Decode_step (out, Base45_pending (p @ [?r]), length (p @ [?r])) input"
        using Base45_Decode_step_valid [OF False Cons.prems, of out] False2 by simp
      then show ?thesis
        using Cons.IH [OF l, of out] by (simp add: vals)
    qed
  qed
qed

lemma Base45_trailing_length: "length (Base45_trailing q) < 3"
  by (induction q rule: Base45_trailing.induct) auto

lemma Base45_Decode_result_eq:
  "Base45_Decode_result input =
     (case Base45_trailing (Base45_values input) of
        [] \<Rightarrow> Inr (Base45_full_groups (Base45_values input))
      | [c0] \<Rightarrow> Inl LengthError
      | c0 # c1 # rest \<Rightarrow>
          Inr (Base45_full_groups (Base45_values input)
               @ [of_nat ((unat c0 + unat c1 * 45) mod 256)]))"
proof (cases "input = []")
  case True
  then show ?thesis by (simp add: Base45_Decode_result_def Base45_values_def)
next
  case False
  let ?t = "Base45_trailing (Base45_values input)"
  have loop: "foldl Base45_Decode_step ([], 0, 0) input =
        (Base45_full_groups (Base45_values input), Base45_pending ?t, length ?t)"
    using Base45_Decode_loop [of "[]" "[]" input] by (simp add: Base45_pending_def)
  have len: "length ?t < 3" by (rule Base45_trailing_length)
  show ?thesis
  proof (cases ?t)
    case Nil
    with False loop show ?thesis by (simp add: Base45_Decode_result_def)
  next
    case (Cons c0 t1)
    show ?thesis
    proof (cases t1)
      case Nil
      with Cons False loop show ?thesis by (simp add: Base45_Decode_result_def)
    next
      case (Cons c1 t2)
      with \<open>?t = c0 # t1\<close> len have t: "?t = [c0, c1]" by simp
      have "unat (ucast c0 + ucast c1 * (45 :: 64 word)) = unat c0 + unat c1 * 45"
        using unat_octet_pair [of c0 c1 0] by simp
      then have "(ucast ((ucast c0 + ucast c1 * (45 :: 64 word)) AND 0xff) :: octet)
                 = of_nat ((unat c0 + unat c1 * 45) mod 256)"
        by (simp only: ucast_low_octet)
      with False loop t show ?thesis
        by (simp add: Base45_Decode_result_def Base45_pending_bytes)
    qed
  qed
qed

lemma Base45_trailing_drop:
  "Base45_trailing q = drop (3 * (length q div 3)) q"
proof (induction q rule: Base45_trailing.induct)
  case (1 c0 c1 c2 rest)
  have "(3 + length rest) div 3 = Suc (length rest div 3)"
    by (simp add: div_add_self1)
  then have "3 * (length (c0 # c1 # c2 # rest) div 3) = Suc (Suc (Suc (3 * (length rest div 3))))"
    by simp
  then show ?case using 1 by (simp del: length_Cons)
qed auto

lemma Base45_trailing_length_mod: "length (Base45_trailing q) = length q mod 3"
  by (induction q rule: Base45_trailing.induct) auto

text \<open>
  Claim C6.  Let the valid characters of the input have the values \<open>vs\<close>.  Decode first
  turns the full groups of three values into octets (\<open>Base45_full_groups vs\<close>); what is
  left (\<open>Base45_trailing vs\<close>, the last \<open>length vs mod 3\<close> values) decides the end:
  nothing left is a complete input and no error; one value left makes Decode fail, and it
  returns the empty sequence; two values \<open>c0\<close>, \<open>c1\<close> left append the single octet
  \<open>(c0 + c1 * 45) & 0xff\<close>.
\<close>

theorem Base45_Decode_trailing_group:
  "Base45_trailing (Base45_values input)
     = drop (3 * (length (Base45_values input) div 3)) (Base45_values input)
   \<and> (Base45_trailing (Base45_values input) = [] \<longrightarrow>
        Base45_Decode_result input = Inr (Base45_full_groups (Base45_values input)))
   \<and> (\<forall>c0. Base45_trailing (Base45_values input) = [c0] \<longrightarrow>
        Base45_Decode_result input = Inl LengthError \<and> Base45_Decode input = [])
   \<and> (\<forall>c0 c1. Base45_trailing (Base45_values input) = [c0, c1] \<longrightarrow>
        Base45_Decode_result input =
          Inr (Base45_full_groups (Base45_values input)
               @ [of_nat ((unat c0 + unat c1 * 45) mod 256)]))"
  by (simp add: Base45_Decode_result_eq [of input] Base45_trailing_drop [symmetric]
        Base45_Decode_def returned_def)

lemmas Base45_eval =
  Base45_values_def Base45ReverseTable_def B45ToInt_def InvalidBase45Character_def

theorem Base45_Decode_trailing_group_witness:
  "Base45_trailing (Base45_values ''BB8'') = []
   \<and> Base45_Decode_result ''BB8'' = Inr [0x41, 0x42]
   \<and> Base45_trailing (Base45_values ''BB8B'') = [11]
   \<and> Base45_Decode_result ''BB8B'' = Inl LengthError \<and> Base45_Decode ''BB8B'' = []
   \<and> Base45_trailing (Base45_values ''%69 VDL2'') = [21, 2]
   \<and> Base45_Decode_result ''%69 VDL2'' = Inr [0x48, 0x65, 0x6c, 0x6c, 0x6f]"
  using Base45_Decode_trailing_group [of "''BB8''"]
        Base45_Decode_trailing_group [of "''BB8B''"]
        Base45_Decode_trailing_group [of "''%69 VDL2''"]
  by (simp add: Base45_eval)

lemma Base45_values_append:
  "Base45_values (s @ t) = Base45_values s @ Base45_values t"
  by (simp add: Base45_values_def)

lemma Base45_groups_append_full:
  "length q mod 3 = 0 \<Longrightarrow>
     Base45_full_groups (q @ r) = Base45_full_groups q @ Base45_full_groups r
     \<and> Base45_trailing (q @ r) = Base45_trailing r"
proof (induction q rule: Base45_trailing.induct)
  case (1 c0 c1 c2 rest)
  then show ?case by (simp add: Let_def)
qed auto

lemma Base45_Decode_eq:
  "length (Base45_values input) mod 3 \<noteq> 1 \<Longrightarrow>
   Base45_Decode_result input = Inr (Base45_Decode input)"
  using Base45_trailing_length_mod [of "Base45_values input"]
  by (auto simp: Base45_Decode_result_eq [of input] Base45_Decode_def returned_def
           split: list.splits)

text \<open>
  Claim C10.  Base45 Decode never rejects a full group of three valid characters for its
  magnitude.  Take a group \<open>a b c\<close> of valid characters with values \<open>c0\<close>, \<open>c1\<close>,
  \<open>c2\<close> that stands at a group boundary (the valid characters before it form full
  groups) in an input that Decode does not reject for its length.  Then, with
  \<open>v = c0 + c1 * 45 + c2 * 2025\<close>, Decode succeeds and the group contributes the two
  octets \<open>(v mod 65536) >> 8\<close> and \<open>v & 0xff\<close>, whatever \<open>v\<close> is.  So the texts ":::"
  (\<open>v\<close> = 91124, above 65535) and "SSC" (\<open>v\<close> = 25588) decode to the same octets.
\<close>

theorem Base45_Decode_group_any_magnitude:
  assumes "Base45ReverseTable a \<noteq> InvalidBase45Character"
      and "Base45ReverseTable b \<noteq> InvalidBase45Character"
      and "Base45ReverseTable c \<noteq> InvalidBase45Character"
      and "length (Base45_values pre) mod 3 = 0"
      and "length (Base45_values post) mod 3 \<noteq> 1"
  shows "Base45_Decode_result (pre @ [a, b, c] @ post) =
           Inr (Base45_Decode pre
                @ (let v = unat (Base45ReverseTable a) + unat (Base45ReverseTable b) * 45
                           + unat (Base45ReverseTable c) * 2025
                   in [of_nat ((v mod 65536) div 256), of_nat (v mod 256)])
                @ Base45_Decode post)
         \<and> Base45_Decode_result '':::'' = Inr [0x63, 0xF4]
         \<and> Base45_Decode_result ''SSC'' = Inr [0x63, 0xF4]
         \<and> unat (Base45ReverseTable CHR '':'') + unat (Base45ReverseTable CHR '':'') * 45
             + unat (Base45ReverseTable CHR '':'') * 2025 = 91124"
proof -
  let ?g = "[Base45ReverseTable a, Base45ReverseTable b, Base45ReverseTable c]"
  let ?vp = "Base45_values pre" and ?vq = "Base45_values post"
  have vg: "Base45_values [a, b, c] = ?g"
    using assms(1-3) by (simp add: Base45_values_def)
  have vals: "Base45_values (pre @ [a, b, c] @ post) = (?vp @ ?g) @ ?vq"
    by (simp only: Base45_values_append vg append_assoc)
  have lg: "length (?vp @ ?g) mod 3 = 0"
    using assms(4) by simp
  have fg: "Base45_full_groups ((?vp @ ?g) @ ?vq)
              = (Base45_full_groups ?vp @ Base45_full_groups ?g) @ Base45_full_groups ?vq"
       and tr: "Base45_trailing ((?vp @ ?g) @ ?vq) = Base45_trailing ?vq"
    using Base45_groups_append_full [OF lg, of ?vq] Base45_groups_append_full [OF assms(4), of ?g]
    by simp_all
  have pre: "Base45_Decode pre = Base45_full_groups ?vp"
    using Base45_trailing_length_mod [of ?vp] assms(4)
    by (simp add: Base45_Decode_def Base45_Decode_result_eq [of pre] returned_def)
  have res: "Base45_Decode_result (pre @ [a, b, c] @ post) =
     (case Base45_trailing ?vq of
        [] \<Rightarrow> Inr ((Base45_full_groups ?vp @ Base45_full_groups ?g) @ Base45_full_groups ?vq)
      | [c0] \<Rightarrow> Inl LengthError
      | c0 # c1 # rest \<Rightarrow>
          Inr (((Base45_full_groups ?vp @ Base45_full_groups ?g) @ Base45_full_groups ?vq)
               @ [of_nat ((unat c0 + unat c1 * 45) mod 256)]))"
    by (simp only: Base45_Decode_result_eq [of "pre @ [a, b, c] @ post"] vals tr fg)
  have "Base45_Decode_result (pre @ [a, b, c] @ post) =
          Inr (Base45_Decode pre @ Base45_full_groups ?g @ Base45_Decode post)"
  proof (cases "Base45_trailing ?vq")
    case Nil
    then have "Base45_Decode post = Base45_full_groups ?vq"
      by (simp add: Base45_Decode_def Base45_Decode_result_eq [of post] returned_def)
    with Nil res pre show ?thesis by simp
  next
    case (Cons c0 t1)
    show ?thesis
    proof (cases t1)
      case Nil
      with Cons have "length ?vq mod 3 = 1"
        using Base45_trailing_length_mod [of ?vq] by simp
      with assms(5) show ?thesis by simp
    next
      case (Cons c1 t2)
      with \<open>Base45_trailing ?vq = c0 # t1\<close>
      have t: "Base45_trailing ?vq = c0 # c1 # t2" by simp
      then have "Base45_Decode post =
                   Base45_full_groups ?vq @ [of_nat ((unat c0 + unat c1 * 45) mod 256)]"
        by (simp add: Base45_Decode_def Base45_Decode_result_eq [of post] returned_def)
      with t res pre show ?thesis by simp
    qed
  qed
  moreover have "Base45_Decode_result '':::'' = Inr [0x63, 0xF4]"
    by (simp add: Base45_Decode_result_eq Base45_eval)
  moreover have "Base45_Decode_result ''SSC'' = Inr [0x63, 0xF4]"
    by (simp add: Base45_Decode_result_eq Base45_eval)
  moreover have "unat (Base45ReverseTable CHR '':'') = 44"
    by (simp add: Base45ReverseTable_def B45ToInt_def)
  ultimately show ?thesis
    by (simp add: Let_def)
qed

theorem Base45_Decode_group_any_magnitude_witness:
  "Base45_Decode_result (''BB8'' @ '':::'' @ ''00'') =
     Inr ([0x41, 0x42] @ [0x63, 0xF4] @ [0x00])"
  using Base45_Decode_group_any_magnitude [of "CHR '':''" "CHR '':''" "CHR '':''" "''BB8''" "''00''"]
  by (simp add: Base45_eval Base45_Decode_def Base45_Decode_result_eq returned_def)

section \<open>Base16\<close>

lemma Base16_valid_nibble:
  "Base16ReverseTable c \<noteq> InvalidBase16Character \<Longrightarrow>
   Base16ReverseTable c AND 0x0f = Base16ReverseTable c"
  unfolding Base16ReverseTable_def B16ToInt_def InvalidBase16Character_def
  by (simp split: if_splits)

lemma Base16_low_nibble:
  "ucast ((push_bit 4 (g::64 word) OR ucast ((r::octet) AND 0x0f)) AND 0x0f) = r AND 0x0f"
  unfolding and15
  by (rule bit_word_eqI) (auto simp: bit_simps)

lemma Base16_full_octet:
  "ucast ((push_bit 4 (g::64 word) OR ucast ((r::octet) AND 0x0f)) AND 0xff)
   = push_bit 4 (ucast (g AND 0x0f) :: octet) OR (r AND 0x0f)"
  unfolding and15 and255
  by (rule bit_word_eqI) (auto simp: bit_simps)

lemma Base16_Decode_step_invalid:
  "Base16ReverseTable c = InvalidBase16Character \<Longrightarrow> Base16_Decode_step st c = st"
  by (cases st) (simp add: Base16_Decode_step_def)

lemma Base16_Decode_step_first:
  "Base16ReverseTable c \<noteq> InvalidBase16Character \<Longrightarrow>
   \<exists>g'. Base16_Decode_step (out, g, 0) c = (out, g', 4)
        \<and> ucast (g' AND 0x0f) = Base16ReverseTable c"
  using Base16_low_nibble [of g "Base16ReverseTable c"]
  by (simp add: Base16_Decode_step_def Let_def Base16_valid_nibble)

lemma Base16_Decode_step_second:
  "Base16ReverseTable c \<noteq> InvalidBase16Character \<Longrightarrow>
   \<exists>g'. Base16_Decode_step (out, g, 4) c =
          (out @ [push_bit 4 (ucast (g AND 0x0f)) OR Base16ReverseTable c], g', 0)"
  using Base16_full_octet [of g "Base16ReverseTable c"]
  by (simp add: Base16_Decode_step_def Let_def Base16_valid_nibble)

lemma Base16_Decode_loop:
  "(\<exists>g'. foldl Base16_Decode_step (out, g, 0) input =
           (out @ Base16_octets (Base16_values input), g',
            if even (length (Base16_values input)) then 0 else 4))
   \<and> (\<exists>g'. foldl Base16_Decode_step (out, g, 4) input =
           (out @ Base16_octets (ucast (g AND 0x0f) # Base16_values input), g',
            if even (length (Base16_values input)) then 4 else 0))"
proof (induction input arbitrary: out g)
  case Nil
  show ?case by (simp add: Base16_values_def)
next
  case (Cons c input)
  show ?case
  proof (cases "Base16ReverseTable c = InvalidBase16Character")
    case True
    then have "Base16_values (c # input) = Base16_values input"
      by (simp add: Base16_values_def)
    with True Cons.IH [of out g] show ?thesis
      by (simp add: Base16_Decode_step_invalid)
  next
    case False
    let ?r = "Base16ReverseTable c"
    have vals: "Base16_values (c # input) = ?r # Base16_values input"
      using False by (simp add: Base16_values_def)
    obtain g1 where s1: "Base16_Decode_step (out, g, 0) c = (out, g1, 4)"
                and n1: "ucast (g1 AND 0x0f) = ?r"
      using Base16_Decode_step_first [OF False] by blast
    obtain g2 where s2: "Base16_Decode_step (out, g, 4) c =
          (out @ [push_bit 4 (ucast (g AND 0x0f)) OR ?r], g2, 0)"
      using Base16_Decode_step_second [OF False] by blast
    have a: "\<exists>g'. foldl Base16_Decode_step (out, g, 0) (c # input) =
           (out @ Base16_octets (Base16_values (c # input)), g',
            if even (length (Base16_values (c # input))) then 0 else 4)"
      using Cons.IH [of out g1] by (auto simp: s1 n1 vals)
    have b: "\<exists>g'. foldl Base16_Decode_step (out, g, 4) (c # input) =
           (out @ Base16_octets (ucast (g AND 0x0f) # Base16_values (c # input)), g',
            if even (length (Base16_values (c # input))) then 4 else 0)"
      using Cons.IH [of "out @ [push_bit 4 (ucast (g AND 0x0f)) OR ?r]" g2]
      by (auto simp: s2 vals)
    from a b show ?thesis by blast
  qed
qed

lemma Base16_octets_length: "length (Base16_octets q) = length q div 2"
  by (induction q rule: Base16_octets.induct) auto

lemma Base16_Decode_result_eq:
  "Base16_Decode_result input =
     (if odd (length (Base16_values input)) then Inl DanglingNibble
      else Inr (Base16_octets (Base16_values input)))"
proof (cases "input = []")
  case True
  then show ?thesis by (simp add: Base16_Decode_result_def Base16_values_def)
next
  case False
  obtain g' where "foldl Base16_Decode_step ([], 0, 0) input =
           (Base16_octets (Base16_values input), g',
            if even (length (Base16_values input)) then 0 else 4)"
    using Base16_Decode_loop [of "[]" 0 input] by auto
  with False show ?thesis
    by (simp add: Base16_Decode_result_def)
qed

lemmas Base16_eval =
  Base16_values_def Base16ReverseTable_def B16ToInt_def InvalidBase16Character_def

text \<open>
  Claim C5.  Base16 Decode fails exactly when the number of valid hex nibbles that remain
  after the characters outside the alphabet are skipped is odd, and it then returns the
  empty sequence, as for "FF80F".  When the number is even, every two valid nibbles give
  one octet.  (An empty result alone does not tell a failure: it is also what an input
  without any valid nibble gives.)
\<close>

theorem Base16_Decode_odd_nibbles:
  "(Base16_Decode_result input = Inl DanglingNibble)
     = odd (length (Base16_values input))
   \<and> (odd (length (Base16_values input)) \<longrightarrow> Base16_Decode input = [])
   \<and> (even (length (Base16_values input)) \<longrightarrow>
        Base16_Decode_result input = Inr (Base16_octets (Base16_values input))
        \<and> Base16_Decode input = Base16_octets (Base16_values input)
        \<and> length (Base16_Decode input) = length (Base16_values input) div 2)
   \<and> (Base16_Decode input = []) =
       (odd (length (Base16_values input)) \<or> length (Base16_values input) = 0)
   \<and> Base16_Decode ''FF80F'' = []"
proof -
  have ex: "Base16_Decode ''FF80F'' = []"
    by (simp add: Base16_Decode_def Base16_Decode_result_eq returned_def Base16_eval)
  have "even (length (Base16_values input)) \<Longrightarrow>
        (Base16_octets (Base16_values input) = []) = (length (Base16_values input) = 0)"
    using Base16_octets_length [of "Base16_values input"]
    by (metis dvd_div_eq_0_iff length_0_conv list.size(3) div_0)
  then show ?thesis
    using ex
    by (auto simp: Base16_Decode_def Base16_Decode_result_eq [of input] returned_def
                   Base16_octets_length)
qed

theorem Base16_Decode_odd_nibbles_witness:
  "odd (length (Base16_values ''FF80F'')) \<and> Base16_Decode_result ''FF80F'' = Inl DanglingNibble
   \<and> even (length (Base16_values ''ff 80 0f''))
   \<and> Base16_Decode_result ''ff 80 0f'' = Inr [0xff, 0x80, 0x0f]"
  using Base16_Decode_odd_nibbles [of "''FF80F''"] Base16_Decode_odd_nibbles [of "''ff 80 0f''"]
  by (simp add: Base16_eval)

section \<open>Base64: the end of Decode\<close>

lemmas Base64_eval =
  Base64_Decode_def Base64_Decode_result_def Base64_Decode_tail_def returned_def
  Base64ReverseTable_def B64ToInt_def InvalidBase64Character_def Base64PaddingCharacter_def

lemmas Base32_eval =
  Base32_Decode_def Base32_Decode_result_def returned_def
  Base32ReverseTable_def B32ToInt_def InvalidBase32Character_def Base32PaddingCharacter_def

text \<open>
  Claim C2 says that Base64 Decode fails, as Base32 Decode does, when the bits accumulated
  beyond the octets it emits are not all zero.  The code has no such check.  On the input
  "QR" the loop ends with 12 bits, \<open>0x411\<close>, in the register: the first 8 give the octet
  0x41 and the 4 residual bits are \<open>0001\<close>, not zero; Decode returns the octet 0x41.
  Base32 Decode rejects the input "MZ", whose 2 residual bits are \<open>01\<close>.
\<close>

theorem Base64_Decode_keeps_nonzero_residue:
  "Base64_Decode_loop ''QR'' ([], 0, 0) = ([], 0x411, 12)
   \<and> (0x411 :: 64 word) AND 0x0f = 1
   \<and> Base64_Decode_result ''QR'' = Inr [0x41]
   \<and> Base64_Decode ''QR'' = [0x41]
   \<and> Base32_Decode_loop ''MZ'' ([], 0, 0) = ([0x66], 0x199, 2)
   \<and> Base32_Decode_result ''MZ'' = Inl NonZeroPadding"
  by (simp add: Base64_eval Base32_eval mask_eq_exp_minus_1)

text \<open>
  Claim C3 says that at the end of the input Decode emits a first trailing octet only if
  at least 8 bits were accumulated.  The code emits it whenever the partial group is not
  empty: on the input "Q" the loop ends with 6 bits in the register, and Decode returns
  the octet 0x40.
\<close>

theorem Base64_Decode_octet_from_six_bits:
  "Base64_Decode_loop ''Q'' ([], 0, 0) = ([], 16, 6)
   \<and> Base64_Decode_result ''Q'' = Inr [0x40]
   \<and> Base64_Decode ''Q'' = [0x40]"
  by (simp add: Base64_eval)

section \<open>Base32: encoding\<close>

lemma Base32_Encode_emit_one:
  "5 \<le> group_size \<Longrightarrow> group_size < 10 \<Longrightarrow>
   Base32_Encode_emit grp (out, quantum, group_size) =
     (out @ [Base32_symbol grp (group_size - 5)], quantum + 1, group_size - 5)"
proof -
  assume a: "5 \<le> group_size" "group_size < 10"
  then have "\<not> 5 \<le> group_size - 5" by simp
  then show ?thesis
    by (subst Base32_Encode_emit.simps) (simp add: Let_def Base32_symbol_def)
qed

lemma Base32_Encode_emit_two:
  "10 \<le> group_size \<Longrightarrow> group_size < 15 \<Longrightarrow>
   Base32_Encode_emit grp (out, quantum, group_size) =
     (out @ [Base32_symbol grp (group_size - 5), Base32_symbol grp (group_size - 10)],
      quantum + 2, group_size - 10)"
proof -
  assume a: "10 \<le> group_size" "group_size < 15"
  then have b: "5 \<le> group_size - 5" "group_size - 5 < 10" "group_size - 5 - 5 = group_size - 10"
    by simp_all
  show ?thesis
    using b(1)
    by (subst Base32_Encode_emit.simps)
       (simp add: Let_def Base32_Encode_emit_one [OF b(1,2)] b Base32_symbol_def)
qed

lemma and31: "(x::'a::len word) AND 31 = take_bit 5 x"
  using take_bit_eq_mask [of 5 x] by (simp add: mask_eq_exp_minus_1)

lemma unat_and31_less: "unat ((x::64 word) AND 0x1f) < 32"
  unfolding and31 unsigned_take_bit_eq
  using take_bit_nat_less_exp [of 5 "unat x"] by simp

lemma Base32Table_length: "length Base32Table = 32"
  by (simp add: Base32Table_def)

lemma Base32_symbol_in_table: "Base32_symbol grp s \<in> set Base32Table"
  unfolding Base32_symbol_def
  by (rule nth_mem) (simp only: Base32Table_length unat_and31_less)

lemma Base32_counts:
  fixes n q r :: nat
  assumes "n = 5 * q + r"
  shows "8 * n div 5 = 8 * q + 8 * r div 5"
    and "8 * n mod 5 = 8 * r mod 5"
    and "(8 * n + 4) div 5 = 8 * q + (8 * r + 4) div 5"
    and "(n + 4) div 5 = q + (r + 4) div 5"
proof -
  have a: "8 * n = 8 * r + 5 * (8 * q)" and b: "8 * n + 4 = (8 * r + 4) + 5 * (8 * q)"
    and c: "n + 4 = (r + 4) + 5 * q"
    using assms by simp_all
  show "8 * n div 5 = 8 * q + 8 * r div 5"
    unfolding a by (rule div_mult_self2) simp
  show "8 * n mod 5 = 8 * r mod 5"
    unfolding a by (rule mod_mult_self2)
  show "(8 * n + 4) div 5 = 8 * q + (8 * r + 4) div 5"
    unfolding b by (rule div_mult_self2) simp
  show "(n + 4) div 5 = q + (r + 4) div 5"
    unfolding c by (rule div_mult_self2) simp
qed

lemma nat_less5_cases:
  "(x::nat) < 5 \<Longrightarrow> x = 0 \<or> x = 1 \<or> x = 2 \<or> x = 3 \<or> x = 4"
  by linarith

lemma nat_mod5_cases:
  fixes k :: nat
  obtains "k mod 5 = 0" | "k mod 5 = 1" | "k mod 5 = 2" | "k mod 5 = 3" | "k mod 5 = 4"
proof -
  have "k mod 5 < 5" by simp
  from nat_less5_cases [OF this] show ?thesis using that by auto
qed

lemma Base32_Encode_step_eq:
  assumes "group_size < 5"
  shows "Base32_Encode_step (out, grp, group_size, quantum) octet =
     (let g = push_bit 8 grp OR ucast octet in
      if group_size < 2
      then (out @ [Base32_symbol g (group_size + 3)], g, group_size + 3,
            if quantum + 1 = 8 then 0 else quantum + 1)
      else (out @ [Base32_symbol g (group_size + 3), Base32_symbol g (group_size - 2)], g,
            group_size - 2, if quantum + 2 = 8 then 0 else quantum + 2))"
proof (cases "group_size < 2")
  case True
  then have "5 \<le> group_size + 8" "group_size + 8 < 10" by simp_all
  from Base32_Encode_emit_one [OF this] True show ?thesis
    by (simp add: Base32_Encode_step_def Let_def add.commute)
next
  case False
  with assms have "10 \<le> group_size + 8" "group_size + 8 < 15" by simp_all
  from Base32_Encode_emit_two [OF this] False show ?thesis
    by (simp add: Base32_Encode_step_def Let_def add.commute numeral_2_eq_2 [symmetric])
qed

lemma Base32_Encode_loop_shape:
  "\<exists>out grp. foldl Base32_Encode_step ([], 0, 0, 0) xs =
       (out, grp, 8 * (length xs mod 5) mod 5, 8 * (length xs mod 5) div 5)
     \<and> length out = 8 * (length xs div 5) + 8 * (length xs mod 5) div 5
     \<and> set out \<subseteq> set Base32Table"
proof (induction xs rule: rev_induct)
  case Nil
  show ?case by simp
next
  case (snoc b xs)
  define k where "k = length xs"
  obtain out grp where st: "foldl Base32_Encode_step ([], 0, 0, 0) xs =
       (out, grp, 8 * (k mod 5) mod 5, 8 * (k mod 5) div 5)"
    and len: "length out = 8 * (k div 5) + 8 * (k mod 5) div 5"
    and tab: "set out \<subseteq> set Base32Table"
    using snoc.IH unfolding k_def by blast
  have l: "length (xs @ [b]) = Suc k" by (simp add: k_def)
  have fold: "foldl Base32_Encode_step ([], 0, 0, 0) (xs @ [b]) =
        Base32_Encode_step (out, grp, 8 * (k mod 5) mod 5, 8 * (k mod 5) div 5) b"
    by (simp add: st)
  have goal: "\<exists>out' grp'.
       Base32_Encode_step (out, grp, 8 * (k mod 5) mod 5, 8 * (k mod 5) div 5) b =
         (out', grp', 8 * (Suc k mod 5) mod 5, 8 * (Suc k mod 5) div 5)
     \<and> length out' = 8 * (Suc k div 5) + 8 * (Suc k mod 5) div 5
     \<and> set out' \<subseteq> set Base32Table"
  proof (cases k rule: nat_mod5_cases)
    case 1
    then show ?thesis using len tab
      by (simp add: Base32_Encode_step_eq Let_def mod_Suc div_Suc Base32_symbol_in_table)
  next
    case 2
    then show ?thesis using len tab
      by (simp add: Base32_Encode_step_eq Let_def mod_Suc div_Suc Base32_symbol_in_table)
  next
    case 3
    then show ?thesis using len tab
      by (simp add: Base32_Encode_step_eq Let_def mod_Suc div_Suc Base32_symbol_in_table)
  next
    case 4
    then show ?thesis using len tab
      by (simp add: Base32_Encode_step_eq Let_def mod_Suc div_Suc Base32_symbol_in_table)
  next
    case 5
    then show ?thesis using len tab
      by (simp add: Base32_Encode_step_eq Let_def mod_Suc div_Suc Base32_symbol_in_table)
  qed
  show ?case
    using goal unfolding l fold k_def .
qed

lemma Base32_residue_facts:
  fixes r :: nat
  assumes "r < 5" and "0 < r"
  shows "0 < 8 * r mod 5" and "8 * r div 5 + 1 < 8"
    and "8 * r div 5 + 1 = (8 * r + 4) div 5" and "(r + 4) div 5 = 1"
  using nat_less5_cases [OF assms(1)] assms(2) by auto

lemma Base32_Encode_step_grp:
  "fst (snd (Base32_Encode_step st b)) = push_bit 8 (fst (snd st)) OR ucast b"
  by (cases st) (simp add: Base32_Encode_step_def Let_def split: prod.splits)

lemma take_bit8_push_or:
  "take_bit 8 (push_bit 8 (g::64 word) OR ucast (b::octet)) = ucast b"
  by (rule bit_word_eqI) (auto simp: bit_simps dest: bit_imp_le_length)

lemma Base32_Encode_loop_grp:
  "xs \<noteq> [] \<Longrightarrow>
   take_bit 8 (fst (snd (foldl Base32_Encode_step st xs))) = (ucast (last xs) :: 64 word)"
proof (induction xs rule: rev_induct)
  case Nil
  then show ?case by simp
next
  case (snoc b xs)
  show ?case
    by (simp only: foldl_append foldl.simps Base32_Encode_step_grp take_bit8_push_or last_snoc)
qed

lemma Base32_final_symbol_value:
  fixes grp :: "64 word" and b :: octet
  assumes "0 < gs" and "gs < 5" and "take_bit 8 grp = ucast b"
  shows "unat (push_bit (5 - gs) grp AND 0x1f) = (unat b mod 2 ^ gs) * 2 ^ (5 - gs)"
proof -
  have g: "take_bit gs grp = take_bit gs (ucast b :: 64 word)"
  proof -
    have "take_bit gs grp = take_bit gs (take_bit 8 grp)"
      using assms(2) by (simp add: min_def)
    then show ?thesis by (simp only: assms(3))
  qed
  have "push_bit (5 - gs) grp AND 0x1f = push_bit (5 - gs) (take_bit gs (ucast b :: 64 word))"
    unfolding and31 take_bit_push_bit g [symmetric]
    using assms(2) by simp
  then have "unat (push_bit (5 - gs) grp AND 0x1f)
             = unat (push_bit (5 - gs) (take_bit gs (ucast b :: 64 word)))"
    by (simp only:)
  also have "\<dots> = take_bit 64 (push_bit (5 - gs) (take_bit gs (unat b)))"
    unfolding unsigned_push_bit_eq unsigned_take_bit_eq unat_ucast_octet by simp
  also have "\<dots> = push_bit (5 - gs) (take_bit gs (unat b))"
  proof (rule take_bit_nat_eq_self)
    have "take_bit gs (unat b) < 2 ^ gs" by (rule take_bit_nat_less_exp)
    then have "push_bit (5 - gs) (take_bit gs (unat b)) < 2 ^ gs * 2 ^ (5 - gs)"
      by (simp add: push_bit_eq_mult)
    also have "\<dots> = 2 ^ 5"
      using assms(2) by (simp add: power_add [symmetric])
    also have "\<dots> < (2 :: nat) ^ 64" by simp
    finally show "push_bit (5 - gs) (take_bit gs (unat b)) < 2 ^ 64" .
  qed
  also have "\<dots> = (unat b mod 2 ^ gs) * 2 ^ (5 - gs)"
    by (simp add: push_bit_eq_mult take_bit_eq_mod)
  finally show ?thesis .
qed

text \<open>
  Claim C8.  For a non-empty input of \<open>n\<close> octets Base32 Encode returns a text of
  \<open>ceil(n / 5) * 8\<close> characters: \<open>ceil(8 n / 5)\<close> characters of the alphabet followed by
  \<open>=\<close> characters up to the next multiple of 8.  When \<open>8 n\<close> is not a multiple of 5,
  \<open>g = 8 n mod 5\<close> bits of the input are left for the final partial group; they are the low
  \<open>g\<close> bits of the last octet, and the last character of the alphabet is the one for
  these bits followed by \<open>5 - g\<close> zero bits, that is, for the value
  \<open>(last octet mod 2^g) * 2^(5 - g)\<close>.  For the empty input the result is empty.
\<close>

theorem Base32_Encode_length:
  "Base32_Encode [] = []
   \<and> (input \<noteq> [] \<longrightarrow>
        length (Base32_Encode input) = 8 * ((length input + 4) div 5)
        \<and> (\<exists>body. Base32_Encode input =
               body @ replicate (8 * ((length input + 4) div 5) - (8 * length input + 4) div 5)
                        Base32PaddingCharacter
             \<and> length body = (8 * length input + 4) div 5
             \<and> set body \<subseteq> set Base32Table
             \<and> (0 < 8 * length input mod 5 \<longrightarrow>
                  last body = Base32Table !
                    ((unat (last input) mod 2 ^ (8 * length input mod 5))
                     * 2 ^ (5 - 8 * length input mod 5)))))"
proof -
  have empty: "Base32_Encode [] = []" by (simp add: Base32_Encode_def)
  have main: "length (Base32_Encode input) = 8 * ((length input + 4) div 5)
        \<and> (\<exists>body. Base32_Encode input =
               body @ replicate (8 * ((length input + 4) div 5) - (8 * length input + 4) div 5)
                        Base32PaddingCharacter
             \<and> length body = (8 * length input + 4) div 5
             \<and> set body \<subseteq> set Base32Table
             \<and> (0 < 8 * length input mod 5 \<longrightarrow>
                  last body = Base32Table !
                    ((unat (last input) mod 2 ^ (8 * length input mod 5))
                     * 2 ^ (5 - 8 * length input mod 5))))" if ne: "input \<noteq> []"
  proof -
    define n where "n = length input"
    define q where "q = n div 5"
    define r where "r = n mod 5"
    have nqr: "n = 5 * q + r" by (simp add: q_def r_def)
    have r5: "r < 5" by (simp add: r_def)
    note cnt = Base32_counts [OF nqr]
    obtain out grp where st: "foldl Base32_Encode_step ([], 0, 0, 0) input =
         (out, grp, 8 * r mod 5, 8 * r div 5)"
      and len: "length out = 8 * q + 8 * r div 5" and tab: "set out \<subseteq> set Base32Table"
      using Base32_Encode_loop_shape [of input] unfolding n_def [symmetric] q_def r_def
      by blast
    show ?thesis
      unfolding n_def [symmetric] cnt
    proof (cases "r = 0")
      case True
      have e: "Base32_Encode input = out"
        using ne True by (simp add: Base32_Encode_def st)
      show "length (Base32_Encode input) = 8 * (q + (r + 4) div 5)
        \<and> (\<exists>body. Base32_Encode input =
               body @ replicate (8 * (q + (r + 4) div 5) - (8 * q + (8 * r + 4) div 5))
                        Base32PaddingCharacter
             \<and> length body = 8 * q + (8 * r + 4) div 5
             \<and> set body \<subseteq> set Base32Table
             \<and> (0 < 8 * r mod 5 \<longrightarrow>
                  last body = Base32Table !
                    ((unat (last input) mod 2 ^ (8 * r mod 5)) * 2 ^ (5 - 8 * r mod 5))))"
        using True len tab by (simp add: e)
    next
      case False
      then have r0: "0 < r" by simp
      note f = Base32_residue_facts [OF r5 r0]
      define s where "s = 5 - 8 * r mod 5"
      define v where "v = unat (push_bit s grp AND 0x1f)"
      define body where "body = out @ [Base32Table ! v]"
      have m5: "8 * r mod 5 mod 5 = 8 * r mod 5" by simp
      have e: "Base32_Encode input =
                 body @ replicate (8 - (8 * r div 5 + 1)) Base32PaddingCharacter"
        using ne f(1,2)
        by (simp add: Base32_Encode_def st Let_def m5 body_def v_def s_def)
      have lb: "length body = 8 * q + (8 * r + 4) div 5"
        using f(3) len by (simp add: body_def)
      have pad: "8 - (8 * r div 5 + 1) = 8 * (q + (r + 4) div 5) - (8 * q + (8 * r + 4) div 5)"
        using f(2) by (simp add: f(3) [symmetric] f(4))
      have vb: "v < 32" unfolding v_def by (rule unat_and31_less)
      then have "Base32Table ! v \<in> set Base32Table"
        by (simp add: Base32Table_length)
      with tab have tb: "set body \<subseteq> set Base32Table" by (simp add: body_def)
      have "fst (snd (foldl Base32_Encode_step ([], 0, 0, 0) input)) = grp"
        by (simp add: st)
      with Base32_Encode_loop_grp [OF ne, of "([], 0, 0, 0)"]
      have low: "take_bit 8 grp = ucast (last input)" by simp
      have gs5: "8 * r mod 5 < 5" by simp
      have dv: "v = (unat (last input) mod 2 ^ (8 * r mod 5)) * 2 ^ (5 - 8 * r mod 5)"
        unfolding v_def s_def by (rule Base32_final_symbol_value [OF f(1) gs5 low])
      have total: "length (Base32_Encode input) = 8 * (q + (r + 4) div 5)"
        using f(2) lb by (simp add: e f(3) [symmetric] f(4))
      have lastb: "last body = Base32Table !
                    ((unat (last input) mod 2 ^ (8 * r mod 5)) * 2 ^ (5 - 8 * r mod 5))"
        using dv by (simp add: body_def)
      show "length (Base32_Encode input) = 8 * (q + (r + 4) div 5)
        \<and> (\<exists>body. Base32_Encode input =
               body @ replicate (8 * (q + (r + 4) div 5) - (8 * q + (8 * r + 4) div 5))
                        Base32PaddingCharacter
             \<and> length body = 8 * q + (8 * r + 4) div 5
             \<and> set body \<subseteq> set Base32Table
             \<and> (0 < 8 * r mod 5 \<longrightarrow>
                  last body = Base32Table !
                    ((unat (last input) mod 2 ^ (8 * r mod 5)) * 2 ^ (5 - 8 * r mod 5))))"
        using total lb tb lastb unfolding pad [symmetric]
        by (intro conjI exI [of _ body] impI e) 
    qed
  qed
  from empty main show ?thesis by blast
qed

theorem Base32_Encode_length_witness:
  "[0x66] \<noteq> ([] :: octet list)
   \<and> 0 < 8 * length [0x66 :: octet] mod 5
   \<and> length (Base32_Encode [0x66]) = 8
   \<and> (\<exists>body. Base32_Encode [0x66] = body @ replicate 6 Base32PaddingCharacter
              \<and> length body = 2 \<and> last body = CHR ''Y'')"
proof -
  have y: "Base32Table ! 24 = CHR ''Y''" by (simp add: Base32Table_def)
  from Base32_Encode_length [of "[0x66]"] show ?thesis
    by (auto simp: y)
qed

section \<open>Base58: one pass of base conversion\<close>

lemma muladd_stop:
  "\<not> j < cap \<or> (j = len \<and> carry = 0) \<Longrightarrow>
   muladd b m cap j carry ds len = (carry, ds, len)"
  by (subst muladd.simps) auto

lemma muladd_step:
  "j < cap \<Longrightarrow> \<not> (j = len \<and> carry = 0) \<Longrightarrow>
   muladd b m cap j carry ds len =
   muladd b m cap (j + 1)
     ((carry + m * ds ! j) div b) (ds[j := (carry + m * ds ! j) mod b])
     (if j = len then len + 1 else len)"
  by (subst muladd.simps) auto

lemma muladd_length:
  "length (fst (snd (muladd b m cap j carry ds len))) = length ds"
proof (induction b m cap j carry ds len rule: muladd.induct)
  case (1 b m cap j carry ds len)
  show ?case
  proof (cases "j < cap \<and> \<not> (j = len \<and> carry = 0)")
    case True
    then show ?thesis using 1 by (simp add: muladd_step)
  next
    case False
    then show ?thesis by (simp add: muladd_stop)
  qed
qed

lemma muladd_len_mono:
  "len \<le> snd (snd (muladd b m cap j carry ds len))"
proof (induction b m cap j carry ds len rule: muladd.induct)
  case (1 b m cap j carry ds len)
  show ?case
  proof (cases "j < cap \<and> \<not> (j = len \<and> carry = 0)")
    case True
    then have "(if j = len then len + 1 else len)
        \<le> snd (snd (muladd b m cap j carry ds len))"
      using 1 by (simp add: muladd_step)
    then show ?thesis by (simp split: if_splits)
  next
    case False
    then show ?thesis by (simp add: muladd_stop)
  qed
qed

lemma muladd_len_cap:
  "j \<le> len \<Longrightarrow> len \<le> cap \<Longrightarrow> snd (snd (muladd b m cap j carry ds len)) \<le> cap"
proof (induction b m cap j carry ds len rule: muladd.induct)
  case (1 b m cap j carry ds len)
  show ?case
  proof (cases "j < cap \<and> \<not> (j = len \<and> carry = 0)")
    case True
    then show ?thesis using 1 by (simp add: muladd_step)
  next
    case False
    then show ?thesis using 1 by (simp add: muladd_stop)
  qed
qed

lemma muladd_unchanged:
  "j \<le> len \<Longrightarrow>
   i < j \<or> snd (snd (muladd b m cap j carry ds len)) \<le> i \<Longrightarrow>
   fst (snd (muladd b m cap j carry ds len)) ! i = ds ! i"
proof (induction b m cap j carry ds len rule: muladd.induct)
  case (1 b m cap j carry ds len)
  show ?case
  proof (cases "j < cap \<and> \<not> (j = len \<and> carry = 0)")
    case True
    let ?len1 = "if j = len then len + 1 else len"
    let ?ds1 = "ds[j := (carry + m * ds ! j) mod b]"
    let ?c1 = "(carry + m * ds ! j) div b"
    have eq: "muladd b m cap j carry ds len = muladd b m cap (j + 1) ?c1 ?ds1 ?len1"
      using True by (simp add: muladd_step)
    have jl: "j + 1 \<le> ?len1" using "1.prems"(1) by simp
    have "?len1 \<le> snd (snd (muladd b m cap (j + 1) ?c1 ?ds1 ?len1))"
      by (rule muladd_len_mono)
    with "1.prems"(2) eq have ij: "i \<noteq> j" and
      c: "i < j + 1 \<or> snd (snd (muladd b m cap (j + 1) ?c1 ?ds1 ?len1)) \<le> i"
      using "1.prems"(1) by (auto split: if_splits)
    have "fst (snd (muladd b m cap (j + 1) ?c1 ?ds1 ?len1)) ! i = ?ds1 ! i"
      using True "1.IH" [OF _ _ jl c] by simp
    with ij eq show ?thesis by simp
  next
    case False
    then show ?thesis by (simp add: muladd_stop)
  qed
qed

lemma muladd_digits:
  "0 < b \<Longrightarrow> j \<le> len \<Longrightarrow> len \<le> cap \<Longrightarrow> j \<le> i \<Longrightarrow> i < length ds \<Longrightarrow>
   i < snd (snd (muladd b m cap j carry ds len)) \<Longrightarrow>
   fst (snd (muladd b m cap j carry ds len)) ! i < b"
proof (induction b m cap j carry ds len rule: muladd.induct)
  case (1 b m cap j carry ds len)
  show ?case
  proof (cases "j < cap \<and> \<not> (j = len \<and> carry = 0)")
    case True
    let ?len1 = "if j = len then len + 1 else len"
    let ?ds1 = "ds[j := (carry + m * ds ! j) mod b]"
    let ?c1 = "(carry + m * ds ! j) div b"
    have eq: "muladd b m cap j carry ds len = muladd b m cap (j + 1) ?c1 ?ds1 ?len1"
      using True by (simp add: muladd_step)
    have jl: "j + 1 \<le> ?len1" using "1.prems"(2) by simp
    have lc: "?len1 \<le> cap" using "1.prems"(3) True by simp
    show ?thesis
    proof (cases "i = j")
      case True
      have "fst (snd (muladd b m cap (j + 1) ?c1 ?ds1 ?len1)) ! i = ?ds1 ! i"
        using True by (intro muladd_unchanged [OF jl]) simp
      then show ?thesis
        using True "1.prems"(1,5) eq by simp
    next
      case False
      with "1.prems"(4) have "j + 1 \<le> i" by simp
      from "1.IH" [OF _ _ "1.prems"(1) jl lc this] True "1.prems"(5,6) eq
      show ?thesis by simp
    qed
  next
    case False
    with "1.prems" show ?thesis by (simp add: muladd_stop)
  qed
qed

lemma le_val_append: "le_val b (xs @ ys) = le_val b xs + b ^ length xs * le_val b ys"
  by (induction xs) (simp_all add: algebra_simps)

lemma le_val_zeros: "(\<forall>d \<in> set xs. d = 0) \<Longrightarrow> le_val b xs = 0"
  by (induction xs) simp_all

lemma le_val_bound: "0 < b \<Longrightarrow> (\<forall>d \<in> set xs. d < b) \<Longrightarrow> le_val b xs < b ^ length xs"
proof (induction xs)
  case Nil
  then show ?case by simp
next
  case (Cons d xs)
  then have "le_val b xs + 1 \<le> b ^ length xs" and "d + 1 \<le> b" by simp_all
  then have "d + b * le_val b xs + 1 \<le> b + b * le_val b xs" by simp
  also have "\<dots> = b * (le_val b xs + 1)" by simp
  also have "\<dots> \<le> b * b ^ length xs"
    using \<open>le_val b xs + 1 \<le> b ^ length xs\<close> by (rule mult_le_mono2)
  finally show ?case by simp
qed

lemma muladd_same_len:
  "snd (snd (muladd b m cap len carry ds len)) = len \<Longrightarrow>
   muladd b m cap len carry ds len = (carry, ds, len)"
proof (cases "len < cap \<and> \<not> carry = 0")
  case True
  then have "muladd b m cap len carry ds len =
     muladd b m cap (len + 1) ((carry + m * ds ! len) div b)
       (ds[len := (carry + m * ds ! len) mod b]) (len + 1)"
    by (simp add: muladd_step)
  moreover have "len + 1 \<le> snd (snd (muladd b m cap (len + 1) ((carry + m * ds ! len) div b)
       (ds[len := (carry + m * ds ! len) mod b]) (len + 1)))"
    by (rule muladd_len_mono)
  moreover assume "snd (snd (muladd b m cap len carry ds len)) = len"
  ultimately show ?thesis by simp
next
  case False
  then show ?thesis by (auto simp: muladd_stop)
qed

lemma muladd_value:
  "j \<le> len \<Longrightarrow> cap \<le> length ds \<Longrightarrow> (\<forall>i < length ds. len \<le> i \<longrightarrow> ds ! i = 0) \<Longrightarrow>
   le_val b (drop j (take cap (fst (snd (muladd b m cap j carry ds len)))))
     + fst (muladd b m cap j carry ds len) * b ^ (cap - j)
   = carry + m * le_val b (drop j (take cap ds))"
proof (induction b m cap j carry ds len rule: muladd.induct)
  case (1 b m cap j carry ds len)
  show ?case
  proof (cases "j < cap")
    case False
    then show ?thesis by (simp add: muladd_stop)
  next
    case jc: True
    show ?thesis
    proof (cases "j = len \<and> carry = 0")
      case True
      have "\<forall>d \<in> set (drop j (take cap ds)). d = 0"
        using True "1.prems"(2,3) by (auto simp: in_set_conv_nth)
      then have "le_val b (drop j (take cap ds)) = 0" by (rule le_val_zeros)
      with True show ?thesis by (simp add: muladd_stop)
    next
      case False
      define c where "c = carry + m * ds ! j"
      define len1 where "len1 = (if j = len then len + 1 else len)"
      define ds1 where "ds1 = ds[j := c mod b]"
      define R where "R = muladd b m cap (j + 1) (c div b) ds1 len1"
      define L where "L = le_val b (drop (j + 1) (take cap ds))"
      have eq: "muladd b m cap j carry ds len = R"
        using jc False by (simp add: muladd_step R_def ds1_def len1_def c_def)
      have jl: "j + 1 \<le> len1" using "1.prems"(1) by (simp add: len1_def)
      have cl: "cap \<le> length ds1" using "1.prems"(2) by (simp add: ds1_def)
      have z: "\<forall>i < length ds1. len1 \<le> i \<longrightarrow> ds1 ! i = 0"
        using "1.prems"(1,3) by (auto simp: nth_list_update ds1_def len1_def)
      have IH: "le_val b (drop (j + 1) (take cap (fst (snd R)))) + fst R * b ^ (cap - (j + 1))
                = c div b + m * le_val b (drop (j + 1) (take cap ds1))"
        using "1.IH" [OF jc False, folded c_def, folded ds1_def len1_def, OF jl cl z]
        by (simp only: R_def)
      have lenR: "length (fst (snd R)) = length ds"
        using muladd_length [of b m cap "j + 1" "c div b" ds1 len1]
        by (simp add: R_def ds1_def)
      have jR: "fst (snd R) ! j = c mod b"
        using muladd_unchanged [OF jl, of j b m cap "c div b" ds1] jc "1.prems"(2)
        by (simp add: R_def ds1_def)
      have "j < length (take cap (fst (snd R)))"
        using jc "1.prems"(2) lenR by simp
      then have "drop j (take cap (fst (snd R))) =
                take cap (fst (snd R)) ! j # drop (Suc j) (take cap (fst (snd R)))"
        by (rule Cons_nth_drop_Suc [symmetric])
      then have d1: "drop j (take cap (fst (snd R))) =
                (c mod b) # drop (j + 1) (take cap (fst (snd R)))"
        using jc jR by simp
      have "j < length (take cap ds)" using jc "1.prems"(2) by simp
      then have "drop j (take cap ds) = take cap ds ! j # drop (Suc j) (take cap ds)"
        by (rule Cons_nth_drop_Suc [symmetric])
      then have d2: "drop j (take cap ds) = ds ! j # drop (j + 1) (take cap ds)"
        using jc by simp
      have d3: "drop (j + 1) (take cap ds1) = drop (j + 1) (take cap ds)"
        by (simp add: ds1_def take_update_swap drop_update_cancel)
      have "cap - j = Suc (cap - (j + 1))" using jc by simp
      then have p: "b ^ (cap - j) = b * b ^ (cap - (j + 1))" by simp
      have "le_val b (drop j (take cap (fst (snd R)))) + fst R * b ^ (cap - j)
            = c mod b + b * (le_val b (drop (j + 1) (take cap (fst (snd R))))
                              + fst R * b ^ (cap - (j + 1)))"
        unfolding d1 p by (simp add: algebra_simps)
      also have "\<dots> = c mod b + b * (c div b + m * L)"
        by (simp only: IH d3 L_def)
      also have "\<dots> = c + b * (m * L)"
        by (simp add: algebra_simps)
      also have "\<dots> = carry + m * le_val b (drop j (take cap ds))"
        unfolding d2 by (simp add: c_def L_def algebra_simps)
      finally show ?thesis by (simp only: eq)
    qed
  qed
qed

lemma muladd_top_digit:
  "j \<le> len \<Longrightarrow> cap \<le> length ds \<Longrightarrow> (\<forall>i < length ds. len \<le> i \<longrightarrow> ds ! i = 0) \<Longrightarrow>
   fst (muladd b m cap j carry ds len) = 0 \<Longrightarrow>
   snd (snd (muladd b m cap j carry ds len)) = len
   \<or> fst (snd (muladd b m cap j carry ds len)) ! (snd (snd (muladd b m cap j carry ds len)) - 1) \<noteq> 0"
proof (induction b m cap j carry ds len rule: muladd.induct)
  case (1 b m cap j carry ds len)
  show ?case
  proof (cases "j < cap \<and> \<not> (j = len \<and> carry = 0)")
    case False
    then show ?thesis by (auto simp: muladd_stop)
  next
    case True
    define c where "c = carry + m * ds ! j"
    define len1 where "len1 = (if j = len then len + 1 else len)"
    define ds1 where "ds1 = ds[j := c mod b]"
    define R where "R = muladd b m cap (j + 1) (c div b) ds1 len1"
    have eq: "muladd b m cap j carry ds len = R"
      using True by (simp add: muladd_step R_def ds1_def len1_def c_def)
    have jl: "j + 1 \<le> len1" using "1.prems"(1) by (simp add: len1_def)
    have cl: "cap \<le> length ds1" using "1.prems"(2) by (simp add: ds1_def)
    have z: "\<forall>i < length ds1. len1 \<le> i \<longrightarrow> ds1 ! i = 0"
      using "1.prems"(1,3) by (auto simp: nth_list_update ds1_def len1_def)
    have c0: "fst R = 0" using "1.prems"(4) eq by simp
    have jc: "j < cap" and nb: "\<not> (j = len \<and> carry = 0)" using True by simp_all
    have IH: "snd (snd R) = len1 \<or> fst (snd R) ! (snd (snd R) - 1) \<noteq> 0"
      using "1.IH" [OF jc nb, folded c_def, folded ds1_def len1_def, OF jl cl z] c0
      by (simp only: R_def)
    show ?thesis
    proof (cases "j = len")
      case False
      then have "len1 = len" by (simp add: len1_def)
      with IH eq show ?thesis by simp
    next
      case jlen: True
      then have l1: "len1 = len + 1" by (simp add: len1_def)
      show ?thesis
      proof (cases "snd (snd R) = len1")
        case False
        with IH eq show ?thesis by simp
      next
        case same: True
        have "snd (snd (muladd b m cap (len + 1) (c div b) ds1 (len + 1))) = len + 1"
          using same jlen l1 by (simp add: R_def)
        then have "muladd b m cap (len + 1) (c div b) ds1 (len + 1) = (c div b, ds1, len + 1)"
          by (rule muladd_same_len)
        then have Rj: "R = (c div b, ds1, len + 1)" using jlen l1 by (simp add: R_def)
        have cd: "c div b = 0" using c0 Rj by simp
        have "ds ! j = 0" using jlen jc "1.prems"(2,3) by simp
        moreover have "carry \<noteq> 0" using nb jlen by simp
        ultimately have "c \<noteq> 0" by (simp add: c_def)
        then have "c mod b \<noteq> 0"
          using cd div_mult_mod_eq [of c b] by auto
        moreover have "j < length ds" using jc "1.prems"(2) by simp
        ultimately show ?thesis
          using eq Rj jlen by (simp add: ds1_def)
      qed
    qed
  qed
qed

section \<open>Base58: numbers in a digit buffer\<close>

lemma le_val_take:
  assumes "k \<le> length ds" and "\<forall>i < length ds. k \<le> i \<longrightarrow> ds ! i = 0"
  shows "le_val b (take k ds) = le_val b ds"
proof -
  have "\<forall>d \<in> set (drop k ds). d = 0"
    using assms by (auto simp: in_set_conv_nth)
  then have "le_val b (drop k ds) = 0" by (rule le_val_zeros)
  then show ?thesis
    using le_val_append [of b "take k ds" "drop k ds"] by simp
qed

lemma le_val_upper:
  assumes "0 < b" and "k \<le> length ds" and "\<forall>i < length ds. k \<le> i \<longrightarrow> ds ! i = 0"
      and "\<forall>i < k. ds ! i < b"
  shows "le_val b ds < b ^ k"
proof -
  have "\<forall>d \<in> set (take k ds). d < b"
    using assms(2,4) by (auto simp: in_set_conv_nth)
  then have "le_val b (take k ds) < b ^ length (take k ds)"
    by (rule le_val_bound [OF assms(1)])
  then show ?thesis
    using le_val_take [OF assms(2,3), of b] assms(2) by simp
qed

lemma le_val_lower:
  assumes "k < length ds" and "ds ! k \<noteq> 0"
  shows "b ^ k \<le> le_val b ds"
proof -
  have "ds = take k ds @ ds ! k # drop (Suc k) ds"
    using assms(1) by (simp add: id_take_nth_drop [symmetric])
  then have "le_val b ds = le_val b (take k ds @ ds ! k # drop (Suc k) ds)" by simp
  also have "\<dots> = le_val b (take k ds) + b ^ k * (ds ! k + b * le_val b (drop (Suc k) ds))"
    using assms(1) by (simp add: le_val_append)
  finally have "b ^ k * ds ! k \<le> le_val b ds"
    by (simp add: algebra_simps)
  moreover have "b ^ k \<le> b ^ k * ds ! k"
    using assms(2) by (cases "ds ! k") simp_all
  ultimately show ?thesis by (rule order_trans [rotated])
qed

lemma bignum_upper: "0 < b \<Longrightarrow> bignum b ds len N \<Longrightarrow> N < b ^ len"
  unfolding bignum_def using le_val_upper [of b len ds] by blast

lemma bignum_lower: "bignum b ds len N \<Longrightarrow> 0 < len \<Longrightarrow> b ^ (len - 1) \<le> N"
  unfolding bignum_def using le_val_lower [of "len - 1" ds b] by auto

lemma le_val_inj:
  "0 < b \<Longrightarrow> length xs = length ys \<Longrightarrow> \<forall>d \<in> set xs. d < b \<Longrightarrow> \<forall>d \<in> set ys. d < b \<Longrightarrow>
   le_val b xs = le_val b ys \<Longrightarrow> xs = ys"
proof (induction xs ys rule: list_induct2')
  case (4 x xs y ys)
  from "4.prems" have xb: "x < b" and yb: "y < b"
    and e: "x + b * le_val b xs = y + b * le_val b ys" by simp_all
  from e have "(x + b * le_val b xs) mod b = (y + b * le_val b ys) mod b" by simp
  with xb yb have xy: "x = y" by simp
  with e "4.prems"(1) have "le_val b xs = le_val b ys" by simp
  with "4.IH" "4.prems" xy show ?case by simp
qed simp_all

lemma bignum_unique:
  assumes "1 < b" and "bignum b ds len N" and "bignum b ds2 len2 N"
  shows "len = len2 \<and> take len ds = take len2 ds2"
proof -
  have b0: "0 < b" using assms(1) by simp
  have l: "len = len2"
  proof (rule ccontr)
    assume ne: "len \<noteq> len2"
    show False
    proof (cases "len < len2")
      case True
      then have "b ^ len \<le> b ^ (len2 - 1)"
        using assms(1) by (intro power_increasing) simp_all
      moreover have "b ^ (len2 - 1) \<le> N"
        using bignum_lower [OF assms(3)] True by simp
      moreover have "N < b ^ len" using bignum_upper [OF b0 assms(2)] .
      ultimately show False by simp
    next
      case False
      with ne have lt: "len2 < len" by simp
      then have "b ^ len2 \<le> b ^ (len - 1)"
        using assms(1) by (intro power_increasing) simp_all
      moreover have "b ^ (len - 1) \<le> N"
        using bignum_lower [OF assms(2)] lt by simp
      moreover have "N < b ^ len2" using bignum_upper [OF b0 assms(3)] .
      ultimately show False by simp
    qed
  qed
  have v1: "le_val b (take len ds) = N" and v2: "le_val b (take len ds2) = N"
    using assms(2,3) l le_val_take [of len ds b] le_val_take [of len ds2 b]
    by (auto simp: bignum_def)
  have d1: "\<forall>d \<in> set (take len ds). d < b" and d2: "\<forall>d \<in> set (take len ds2). d < b"
    using assms(2,3) l by (auto simp: bignum_def in_set_conv_nth)
  have "length (take len ds) = length (take len ds2)"
    using assms(2,3) l by (simp add: bignum_def)
  from le_val_inj [OF b0 this d1 d2] v1 v2 l show ?thesis by simp
qed

lemma muladd_pass:
  assumes big: "bignum b ds len N" and b1: "1 < b" and m1: "1 \<le> m"
      and cap: "cap \<le> length ds" and lc: "len \<le> cap" and fit: "carry + m * N < b ^ cap"
  shows "\<exists>ds' len'. muladd b m cap 0 carry ds len = (0, ds', len')
           \<and> bignum b ds' len' (carry + m * N) \<and> length ds' = length ds
           \<and> len' \<le> cap \<and> len \<le> len'"
proof -
  define R where "R = muladd b m cap 0 carry ds len"
  define c' where "c' = fst R"
  define ds' where "ds' = fst (snd R)"
  define len' where "len' = snd (snd R)"
  have R: "R = (c', ds', len')" by (simp add: c'_def ds'_def len'_def)
  have b0: "0 < b" using b1 by simp
  have z: "\<forall>i < length ds. len \<le> i \<longrightarrow> ds ! i = 0"
    and dg: "\<forall>i < len. ds ! i < b" and val: "le_val b ds = N"
    using big by (simp_all add: bignum_def)
  have length: "length ds' = length ds"
    unfolding ds'_def R_def by (rule muladd_length)
  have mono: "len \<le> len'" unfolding len'_def R_def by (rule muladd_len_mono)
  have lcap: "len' \<le> cap" unfolding len'_def R_def by (rule muladd_len_cap) (simp_all add: lc)
  have z': "\<forall>i < length ds'. len' \<le> i \<longrightarrow> ds' ! i = 0"
  proof (intro allI impI)
    fix i assume i: "i < length ds'" "len' \<le> i"
    have "ds' ! i = ds ! i"
      unfolding ds'_def R_def using i(2)
      by (intro muladd_unchanged) (simp_all add: len'_def R_def)
    with z i mono length show "ds' ! i = 0" by simp
  qed
  have dg': "\<forall>i < len'. ds' ! i < b"
  proof (intro allI impI)
    fix i assume i: "i < len'"
    then have "i < length ds" using lcap cap by simp
    with i show "ds' ! i < b"
      unfolding ds'_def len'_def R_def
      by (intro muladd_digits [OF b0 _ lc]) simp_all
  qed
  have "le_val b (drop 0 (take cap ds')) + c' * b ^ (cap - 0)
          = carry + m * le_val b (drop 0 (take cap ds))"
    unfolding ds'_def c'_def R_def
    by (intro muladd_value [OF _ cap z]) simp
  moreover have "le_val b (take cap ds') = le_val b ds'"
    using z' lcap cap length by (intro le_val_take) auto
  moreover have "le_val b (take cap ds) = le_val b ds"
    using z lc cap by (intro le_val_take) auto
  ultimately have v: "le_val b ds' + c' * b ^ cap = carry + m * N"
    using val by simp
  have c0: "c' = 0"
  proof (rule ccontr)
    assume "c' \<noteq> 0"
    then have "1 * b ^ cap \<le> c' * b ^ cap" by (intro mult_le_mono1) simp
    with v fit show False by simp
  qed
  have v': "le_val b ds' = carry + m * N" using v c0 by simp
  have "N \<le> m * N" using m1 by (cases m) simp_all
  then have mn: "N \<le> carry + m * N" by (rule trans_le_add2)
  have top: "len' = 0 \<or> ds' ! (len' - 1) \<noteq> 0"
  proof (cases "len' = len")
    case False
    have "fst (muladd b m cap 0 carry ds len) = 0"
      using c0 by (simp add: c'_def R_def)
    from muladd_top_digit [OF _ cap z this] False show ?thesis
      by (simp add: len'_def ds'_def R_def)
  next
    case True
    show ?thesis
    proof (cases "len = 0")
      case True
      with \<open>len' = len\<close> show ?thesis by simp
    next
      case False
      show ?thesis
      proof (rule ccontr)
        assume "\<not> (len' = 0 \<or> ds' ! (len' - 1) \<noteq> 0)"
        then have t0: "ds' ! (len - 1) = 0" using True by simp
        have "\<forall>i < length ds'. len - 1 \<le> i \<longrightarrow> ds' ! i = 0"
        proof (intro allI impI)
          fix i assume i: "i < length ds'" "len - 1 \<le> i"
          show "ds' ! i = 0"
          proof (cases "i = len - 1")
            case True
            with t0 show ?thesis by simp
          next
            case False
            with i(2) have "len' \<le> i" using \<open>len' = len\<close> by simp
            with z' i(1) show ?thesis by simp
          qed
        qed
        moreover have "\<forall>i < len - 1. ds' ! i < b" using dg' True by simp
        moreover have "len - 1 \<le> length ds'" using lc cap length by simp
        ultimately have "le_val b ds' < b ^ (len - 1)"
          by (intro le_val_upper [OF b0]) auto
        moreover have "b ^ (len - 1) \<le> N"
          using bignum_lower [OF big] False by simp
        moreover note mn
        ultimately show False using v' by simp
      qed
    qed
  qed
  have "bignum b ds' len' (carry + m * N)"
    unfolding bignum_def using lcap cap length z' dg' top v' by simp
  with R c0 length lcap mono show ?thesis
    unfolding R_def by blast
qed

section \<open>Base58: the inner loops compute \<open>muladd\<close>\<close>

lemma unat_carry_add:
  fixes carry :: "32 word"
  assumes "unat carry < 65536" and "x < 65536"
  shows "unat (carry + of_nat x) = unat carry + x"
proof -
  have "unat (of_nat x :: 32 word) = x"
    using assms(2) by (simp add: unat_of_nat)
  moreover have "unat carry + x < 2 ^ LENGTH(32)"
    using assms by simp
  ultimately show ?thesis
    using unat_add_lem [of carry "of_nat x"] by simp
qed

lemma of_char_less: "of_char c < (256 :: nat)"
  using of_char_mod_256 [of c, where ?'a = nat]
  by (metis mod_less_divisor zero_less_numeral)

lemma push8_of_char:
  "push_bit 8 (of_nat (of_char c) :: 32 word) = of_nat (256 * of_char c)"
  by (simp add: push_bit_eq_mult)

lemma unat_32_div_mod:
  fixes w :: "32 word"
  shows "unat (w div 58) = unat w div 58" "unat (w mod 58) = unat w mod 58"
        "unat (w div 256) = unat w div 256" "unat (w mod 256) = unat w mod 256"
  by (simp_all add: unat_div unat_mod)

lemma Base58_Encode_inner_stop:
  "\<not> j < max_output_length \<or> (j = output_length \<and> carry = 0) \<Longrightarrow>
   Base58_Encode_inner zeros max_output_length j (carry, output, output_length)
     = (carry, output, output_length)"
  by (subst Base58_Encode_inner.simps) auto

lemma Base58_Encode_inner_step:
  "j < max_output_length \<Longrightarrow> \<not> (j = output_length \<and> carry = 0) \<Longrightarrow>
   Base58_Encode_inner zeros max_output_length j (carry, output, output_length) =
   Base58_Encode_inner zeros max_output_length (j + 1)
     ((carry + push_bit 8 (of_nat (of_char (output ! (j - zeros))))) div 58,
      output[j - zeros :=
        char_of (unat ((carry + push_bit 8 (of_nat (of_char (output ! (j - zeros))))) mod 58))],
      if j = output_length then output_length + 1 else output_length)"
  by (subst Base58_Encode_inner.simps) (auto simp: Let_def)

lemma Base58_Encode_inner_muladd:
  assumes "zeros \<le> j" and "zeros \<le> ol" and "mx - zeros \<le> length out"
      and "unat carry < 65536"
  shows "muladd 58 256 (mx - zeros) (j - zeros) (unat carry) (map of_char out) (ol - zeros)
         = (unat (fst (Base58_Encode_inner zeros mx j (carry, out, ol))),
            map of_char (fst (snd (Base58_Encode_inner zeros mx j (carry, out, ol)))),
            snd (snd (Base58_Encode_inner zeros mx j (carry, out, ol))) - zeros)
         \<and> zeros \<le> snd (snd (Base58_Encode_inner zeros mx j (carry, out, ol)))"
  using assms
proof (induction zeros mx j "(carry, out, ol)" arbitrary: carry out ol
       rule: Base58_Encode_inner.induct)
  case (1 zeros mx j carry out ol)
  show ?case
  proof (cases "j < mx \<and> \<not> (j = ol \<and> carry = 0)")
    case False
    then have "\<not> j - zeros < mx - zeros \<or> (j - zeros = ol - zeros \<and> unat carry = 0)"
      using "1.prems"(1,2) by (auto simp: unat_eq_0)
    then show ?thesis
      using False "1.prems"(2) by (simp add: muladd_stop Base58_Encode_inner_stop)
  next
    case True
    define d where "d = (of_char (out ! (j - zeros)) :: nat)"
    define cw where "cw = carry + push_bit 8 (of_nat d :: 32 word)"
    define c where "c = unat carry + 256 * d"
    define out1 where "out1 = out[j - zeros := char_of (unat (cw mod 58))]"
    define ol1 where "ol1 = (if j = ol then ol + 1 else ol)"
    have jc: "j < mx" and nb: "\<not> (j = ol \<and> carry = 0)" using True by simp_all
    have idx: "j - zeros < length out" using jc "1.prems"(1,3) by simp
    have d: "d < 256" unfolding d_def by (rule of_char_less)
    have cw: "unat cw = c"
      unfolding cw_def c_def push8_of_char [of "out ! (j - zeros)", folded d_def]
      using d by (intro unat_carry_add "1.prems"(4)) simp
    have c_bound: "c < 2 * 65536" using d "1.prems"(4) by (simp add: c_def)
    have step: "Base58_Encode_inner zeros mx j (carry, out, ol) =
                Base58_Encode_inner zeros mx (j + 1) (cw div 58, out1, ol1)"
      using Base58_Encode_inner_step [OF jc nb, of zeros out]
      by (simp only: cw_def d_def out1_def ol1_def)
    have a_nb: "j - zeros < mx - zeros"
              "\<not> (j - zeros = ol - zeros \<and> unat carry = 0)"
      using jc nb "1.prems"(1,2) by (auto simp: unat_eq_0)
    have nth: "map of_char out ! (j - zeros) = d"
      using idx by (simp add: d_def)
    have upd: "(map of_char out)[j - zeros := c mod 58] = map of_char out1"
      unfolding out1_def unat_32_div_mod cw
      by (simp add: map_update)
    have len1: "(if j - zeros = ol - zeros then ol - zeros + 1 else ol - zeros) = ol1 - zeros"
      using "1.prems"(1,2) by (auto simp: ol1_def)
    have astep: "muladd 58 256 (mx - zeros) (j - zeros) (unat carry) (map of_char out) (ol - zeros)
        = muladd 58 256 (mx - zeros) (j + 1 - zeros) (unat (cw div 58)) (map of_char out1)
            (ol1 - zeros)"
      using muladd_step [OF a_nb, of 58 256 "map of_char out"] "1.prems"(1)
      by (simp add: nth c_def [symmetric] upd len1 unat_32_div_mod cw Suc_diff_le)
    have p1: "zeros \<le> j + 1" using "1.prems"(1) by simp
    have p2: "zeros \<le> ol1" using "1.prems"(2) by (simp add: ol1_def)
    have p3: "mx - zeros \<le> length out1" using "1.prems"(3) by (simp add: out1_def)
    have p4: "unat (cw div 58) < 65536"
      using c_bound by (simp add: unat_32_div_mod cw)
    have IH: "muladd 58 256 (mx - zeros) (j + 1 - zeros) (unat (cw div 58)) (map of_char out1)
                (ol1 - zeros)
         = (unat (fst (Base58_Encode_inner zeros mx (j + 1) (cw div 58, out1, ol1))),
            map of_char (fst (snd (Base58_Encode_inner zeros mx (j + 1) (cw div 58, out1, ol1)))),
            snd (snd (Base58_Encode_inner zeros mx (j + 1) (cw div 58, out1, ol1))) - zeros)
         \<and> zeros \<le> snd (snd (Base58_Encode_inner zeros mx (j + 1) (cw div 58, out1, ol1)))"
      using "1.hyps" [OF jc nb refl refl refl refl, folded d_def, folded cw_def,
                      folded out1_def ol1_def, OF p1 p2 p3 p4] .
    show ?thesis
      unfolding step astep using IH by simp
  qed
qed

lemma Base58_Decode_inner_stop:
  "\<not> j < max_output_length \<or> (j = output_length \<and> carry = 0) \<Longrightarrow>
   Base58_Decode_inner max_output_length j (carry, output, output_length)
     = (carry, output, output_length)"
  by (subst Base58_Decode_inner.simps) auto

lemma Base58_Decode_inner_step:
  "j < max_output_length \<Longrightarrow> \<not> (j = output_length \<and> carry = 0) \<Longrightarrow>
   Base58_Decode_inner max_output_length j (carry, output, output_length) =
   Base58_Decode_inner max_output_length (j + 1)
     ((carry + 58 * ucast (output ! j)) div 256,
      output[j := ucast ((carry + 58 * ucast (output ! j)) mod 256)],
      if j = output_length then output_length + 1 else output_length)"
  by (subst Base58_Decode_inner.simps) (auto simp: Let_def)

lemma ucast_octet_32: "(ucast (b::octet) :: 32 word) = of_nat (unat b)"
  by simp

lemma unat_ucast_32_octet: "unat (ucast (w::32 word) :: octet) = unat w mod 256"
  by (simp add: unsigned_ucast_eq take_bit_eq_mod)

lemma Base58_Decode_inner_muladd:
  assumes "mx \<le> length out" and "unat carry < 65536"
  shows "muladd 256 58 mx j (unat carry) (map unat out) ol
         = (unat (fst (Base58_Decode_inner mx j (carry, out, ol))),
            map unat (fst (snd (Base58_Decode_inner mx j (carry, out, ol)))),
            snd (snd (Base58_Decode_inner mx j (carry, out, ol))))"
  using assms
proof (induction mx j "(carry, out, ol)" arbitrary: carry out ol
       rule: Base58_Decode_inner.induct)
  case (1 mx j carry out ol)
  show ?case
  proof (cases "j < mx \<and> \<not> (j = ol \<and> carry = 0)")
    case False
    then have "\<not> j < mx \<or> (j = ol \<and> unat carry = 0)"
      by (auto simp: unat_eq_0)
    then show ?thesis
      using False by (simp add: muladd_stop Base58_Decode_inner_stop)
  next
    case True
    define d where "d = unat (out ! j)"
    define cw where "cw = carry + 58 * (ucast (out ! j) :: 32 word)"
    define c where "c = unat carry + 58 * d"
    define out1 where "out1 = out[j := (ucast (cw mod 256) :: octet)]"
    define ol1 where "ol1 = (if j = ol then ol + 1 else ol)"
    have jc: "j < mx" and nb: "\<not> (j = ol \<and> carry = 0)" using True by simp_all
    have idx: "j < length out" using jc "1.prems"(1) by simp
    have d: "d < 256" unfolding d_def by (rule unat_octet_less)
    have "58 * (ucast (out ! j) :: 32 word) = of_nat (58 * d)"
      by (simp add: d_def)
    then have cw: "unat cw = c"
      unfolding cw_def c_def
      using d by (simp only:) (intro unat_carry_add "1.prems"(2), simp)
    have c_bound: "c < 2 * 65536" using d "1.prems"(2) by (simp add: c_def)
    have step: "Base58_Decode_inner mx j (carry, out, ol) =
                Base58_Decode_inner mx (j + 1) (cw div 256, out1, ol1)"
      using Base58_Decode_inner_step [OF jc nb, of out]
      by (simp only: cw_def out1_def ol1_def)
    have a_nb: "\<not> (j = ol \<and> unat carry = 0)"
      using nb by (auto simp: unat_eq_0)
    have nth: "map unat out ! j = d"
      using idx by (simp add: d_def)
    have upd: "(map unat out)[j := c mod 256] = map unat out1"
      unfolding out1_def
      by (simp add: map_update unat_ucast_32_octet unat_32_div_mod cw)
    have astep: "muladd 256 58 mx j (unat carry) (map unat out) ol
        = muladd 256 58 mx (j + 1) (unat (cw div 256)) (map unat out1) ol1"
      using muladd_step [OF jc a_nb, of 256 58 "map unat out"]
      by (simp add: nth c_def [symmetric] upd ol1_def unat_32_div_mod cw)
    have p3: "mx \<le> length out1" using "1.prems"(1) by (simp add: out1_def)
    have p4: "unat (cw div 256) < 65536"
      using c_bound by (simp add: unat_32_div_mod cw)
    have IH: "muladd 256 58 mx (j + 1) (unat (cw div 256)) (map unat out1) ol1
         = (unat (fst (Base58_Decode_inner mx (j + 1) (cw div 256, out1, ol1))),
            map unat (fst (snd (Base58_Decode_inner mx (j + 1) (cw div 256, out1, ol1)))),
            snd (snd (Base58_Decode_inner mx (j + 1) (cw div 256, out1, ol1))))"
      using "1.hyps" [OF jc nb refl refl refl refl, folded cw_def,
                      folded out1_def ol1_def, OF p3 p4] .
    show ?thesis
      unfolding step astep using IH by simp
  qed
qed

section \<open>Base58: the output buffer of Encode is large enough\<close>

lemma pow_256_100_less: "(256 :: nat) ^ 100 < 58 ^ 137"
  by simp

lemma Base58_capacity_basic: "(256 :: nat) ^ m < 58 ^ (m * 137 div 100 + 1)"
proof -
  have "r < 100 \<Longrightarrow> q * 100 + r = m * 137 \<Longrightarrow> 137 * m < 100 * (q + 1)" for q r :: nat
    by simp
  from this [of "m * 137 mod 100" "m * 137 div 100"]
  have "137 * m < 100 * (m * 137 div 100 + 1)" by simp
  then have lt: "(58 :: nat) ^ (137 * m) < 58 ^ (100 * (m * 137 div 100 + 1))"
    by (intro power_strict_increasing) simp_all
  have "((256 :: nat) ^ m) ^ 100 = (256 ^ 100) ^ m"
    by (simp only: power_mult [symmetric] mult.commute)
  also have "\<dots> \<le> (58 ^ 137) ^ m"
    by (rule power_mono) (simp_all only: less_imp_le [OF pow_256_100_less] zero_le)
  also have "\<dots> = 58 ^ (137 * m)"
    by (simp only: power_mult)
  also note lt
  also have "(58 :: nat) ^ (100 * (m * 137 div 100 + 1)) = (58 ^ (m * 137 div 100 + 1)) ^ 100"
    by (simp only: power_mult [symmetric] mult.commute)
  finally show ?thesis
    by (rule power_less_imp_less_base) simp
qed

lemma div_add_ge: "(a::nat) div c + b div c \<le> (a + b) div c"
proof (cases "c = 0")
  case True
  then show ?thesis by simp
next
  case False
  have "(a div c + b div c) * c \<le> a + b"
    using div_mult_mod_eq [of a c] div_mult_mod_eq [of b c]
    by (metis add_mono div_times_less_eq_dividend distrib_right)
  then show ?thesis
    using False by (simp add: less_eq_div_iff_mult_less_eq)
qed

lemma Base58_capacity:
  "(256 :: nat) ^ m \<le> 58 ^ ((m + z) * 137 div 100 + 1 - z)"
proof -
  define a where "a = m * 137 div 100"
  define c where "c = z * 137 div 100"
  define t where "t = (m + z) * 137 div 100"
  have "z * 100 div 100 \<le> z * 137 div 100"
    by (rule div_le_mono) simp
  then have z: "z \<le> c" by (simp add: c_def)
  have "m * 137 div 100 + z * 137 div 100 \<le> (m * 137 + z * 137) div 100"
    by (rule div_add_ge)
  moreover have "m * 137 + z * 137 = (m + z) * 137"
    by (simp only: distrib_right)
  ultimately have "a + c \<le> t"
    by (simp only: a_def c_def t_def)
  with z have "a + 1 \<le> t + 1 - z" by linarith
  then have "(58 :: nat) ^ (a + 1) \<le> 58 ^ (t + 1 - z)"
    by (rule power_increasing) simp
  moreover have "(256 :: nat) ^ m < 58 ^ (a + 1)"
    unfolding a_def by (rule Base58_capacity_basic)
  ultimately have "(256 :: nat) ^ m \<le> 58 ^ (t + 1 - z)"
    by (rule less_imp_le [OF less_le_trans [rotated]])
  then show ?thesis by (simp only: t_def)
qed

section \<open>Base58: Encode\<close>

lemma be_acc_Cons: "be_acc b N (d # ds) = be_acc b (N * b + d) ds"
  by (simp add: be_acc_def)

lemma be_acc_ge: "0 < b \<Longrightarrow> N \<le> be_acc b N ds"
proof (induction ds arbitrary: N)
  case Nil
  then show ?case by (simp add: be_acc_def)
next
  case (Cons d ds)
  have "N \<le> N * b" using Cons.prems by (cases b) simp_all
  then have "N \<le> N * b + d" by (rule trans_le_add1)
  also have "\<dots> \<le> be_acc b (N * b + d) ds" by (rule Cons.IH [OF Cons.prems])
  finally show ?case by (simp add: be_acc_Cons)
qed

lemma nat_le_mult_pos: "0 < y \<Longrightarrow> (x::nat) \<le> x * y"
  by (cases y) simp_all

lemma of_char_zero: "(of_char (CHR 0x00) :: nat) = 0"
  by simp

lemma bignum_zero: "bignum b (replicate n 0) 0 0"
  by (simp add: bignum_def le_val_zeros)

lemma Base58_Encode_outer_ok:
  assumes "bignum 58 (map of_char out) (ol - zeros) N"
      and "zeros \<le> ol" and "ol \<le> mx" and "length out = mx"
      and "(N + 1) * 256 ^ length bs \<le> 58 ^ (mx - zeros)"
  shows "\<exists>out' ol'. Base58_Encode_outer zeros mx bs (out, ol) = Inr (out', ol')
           \<and> bignum 58 (map of_char out') (ol' - zeros) (be_acc 256 N (map unat bs))
           \<and> zeros \<le> ol' \<and> ol' \<le> mx \<and> length out' = mx"
  using assms
proof (induction bs arbitrary: out ol N)
  case Nil
  then show ?case by (simp add: be_acc_def)
next
  case (Cons b bs)
  define R where "R = Base58_Encode_inner zeros mx zeros (ucast b :: 32 word, out, ol)"
  define c' where "c' = fst R"
  define out' where "out' = fst (snd R)"
  define ol' where "ol' = snd (snd R)"
  have R: "R = (c', out', ol')" by (simp add: c'_def out'_def ol'_def)
  have ub: "unat (ucast b :: 32 word) = unat b"
    using unat_octet_less [of b] by (simp add: unsigned_ucast_eq take_bit_nat_eq_self)
  have small: "unat (ucast b :: 32 word) < 65536"
    using unat_octet_less [of b] ub by simp
  have cap: "mx - zeros \<le> length out" using Cons.prems(4) by simp
  have ref: "muladd 58 256 (mx - zeros) 0 (unat b) (map of_char out) (ol - zeros)
               = (unat c', map of_char out', ol' - zeros)" and z': "zeros \<le> ol'"
    using Base58_Encode_inner_muladd [OF order_refl Cons.prems(2) cap small]
    by (simp_all add: ub R_def c'_def out'_def ol'_def)
  have "unat b + 1 \<le> 256" using unat_octet_less [of b] by simp
  then have "unat b + 256 * N + 1 \<le> 256 * (N + 1)" by simp
  then have n1: "(unat b + 256 * N + 1) * 256 ^ length bs \<le> 256 * (N + 1) * 256 ^ length bs"
    by (rule mult_le_mono1)
  also have "\<dots> = (N + 1) * 256 ^ length (b # bs)" by (simp add: algebra_simps)
  also have "\<dots> \<le> 58 ^ (mx - zeros)" by (rule Cons.prems(5))
  finally have fit': "(unat b + 256 * N + 1) * 256 ^ length bs \<le> 58 ^ (mx - zeros)" .
  have "unat b + 256 * N + 1 \<le> (unat b + 256 * N + 1) * 256 ^ length bs"
    by (rule nat_le_mult_pos) simp
  with fit' have fit: "unat b + 256 * N < 58 ^ (mx - zeros)" by simp
  have lc: "ol - zeros \<le> mx - zeros" using Cons.prems(3) by simp
  have capd: "mx - zeros \<le> length (map of_char out :: nat list)" using cap by simp
  obtain ds' len' where
    m: "muladd 58 256 (mx - zeros) 0 (unat b) (map of_char out) (ol - zeros) = (0, ds', len')"
    and big': "bignum 58 ds' len' (unat b + 256 * N)"
    and l': "length ds' = length (map of_char out :: nat list)" and lc': "len' \<le> mx - zeros"
    using muladd_pass [OF Cons.prems(1) _ _ capd lc fit] by auto
  from ref m have c0: "unat c' = 0" and ds': "map of_char out' = ds'" and len': "ol' - zeros = len'"
    by simp_all
  have c'0: "\<not> c' > 0" using c0 by (simp add: unat_eq_0)
  have lo: "length out' = mx"
    using l' ds' Cons.prems(4) by (metis length_map)
  have ol'mx: "ol' \<le> mx" using lc' len' z' Cons.prems(2,3) by linarith
  have big'': "bignum 58 (map of_char out') (ol' - zeros) (N * 256 + unat b)"
    using big' ds' len' by (simp add: mult.commute add.commute)
  have fit'': "(N * 256 + unat b + 1) * 256 ^ length bs \<le> 58 ^ (mx - zeros)"
    using fit' by (simp add: mult.commute add.commute add.left_commute)
  have step: "Base58_Encode_outer zeros mx (b # bs) (out, ol) =
              Base58_Encode_outer zeros mx bs (out', ol')"
    using c'0 R by (simp add: Let_def R_def [symmetric])
  show ?case
    unfolding step list.map be_acc_Cons
    by (rule Cons.IH [OF big'' z' ol'mx lo fit''])
qed

lemma Base58_Encode_subst_done:
  "output_length < i \<Longrightarrow>
   Base58_Encode_subst output_length i (output, beyond) = (output, beyond)"
  by (subst Base58_Encode_subst.simps) simp

lemma Base58_Encode_subst_step:
  "i \<le> output_length \<Longrightarrow>
   Base58_Encode_subst output_length i (output, beyond) =
   Base58_Encode_subst output_length (i + 1)
     (output[i := Base58Table ! of_char (string_at output i)],
      (if i < length output then beyond else beyond @ [i]))"
  by (subst Base58_Encode_subst.simps) simp

lemma Base58_Encode_subst_eq:
  "length out = n \<Longrightarrow> i \<le> n \<Longrightarrow>
   Base58_Encode_subst n i (out, beyond) =
     (take i out @ map Base58_substitute (drop i out), beyond @ [n])"
proof (induction "n - i" arbitrary: i out beyond)
  case 0
  then have i: "i = n" by simp
  have "Base58_Encode_subst n n (out, beyond) =
        Base58_Encode_subst n (n + 1) (out, beyond @ [n])"
    using "0.prems"(1) by (subst Base58_Encode_subst_step) (simp_all add: list_update_beyond)
  also have "\<dots> = (out, beyond @ [n])"
    by (rule Base58_Encode_subst_done) simp
  finally show ?case using i "0.prems"(1) by simp
next
  case (Suc k)
  then have i: "i < n" by simp
  define out1 where "out1 = out[i := Base58_substitute (out ! i)]"
  have l1: "length out1 = n" using Suc.prems(1) by (simp add: out1_def)
  have "Base58_Encode_subst n i (out, beyond) = Base58_Encode_subst n (i + 1) (out1, beyond)"
    using i Suc.prems(1)
    by (subst Base58_Encode_subst_step)
       (simp_all add: out1_def string_at_def Base58_substitute_def)
  also have "\<dots> = (take (i + 1) out1 @ map Base58_substitute (drop (i + 1) out1), beyond @ [n])"
    using Suc.hyps(2) i by (intro Suc.hyps(1) l1) simp_all
  also have "take (i + 1) out1 = take i out @ [Base58_substitute (out ! i)]"
    using i Suc.prems(1) by (simp add: out1_def take_Suc_conv_app_nth)
  also have "drop (i + 1) out1 = drop (i + 1) out"
    by (simp add: out1_def)
  finally show ?case
    using i Suc.prems(1) by (simp add: Cons_nth_drop_Suc [symmetric])
qed

lemma Base58_leading_zeros_le: "Base58_leading_zeros input \<le> length input"
  by (induction input) simp_all

lemma Base58_leading_zeros_split:
  "input = replicate (Base58_leading_zeros input) 0 @ drop (Base58_leading_zeros input) input"
  by (induction input) simp_all

lemma Base58_leading_zeros_rest:
  "drop (Base58_leading_zeros input) input = [] \<or>
   hd (drop (Base58_leading_zeros input) input) \<noteq> 0"
  by (induction input) simp_all

lemma Base58_max_ge: "(n::nat) \<le> n * 137 div 100 + 1"
proof -
  have "n * 100 div 100 \<le> n * 137 div 100" by (rule div_le_mono) simp
  then show ?thesis by simp
qed

lemma Base58_Encode_run_eq:
  assumes "input \<noteq> []"
  defines "zeros \<equiv> Base58_leading_zeros input"
  shows "\<exists>out ol. Base58_Encode_run input
           = Inr (rev (map Base58_substitute (take ol out)), [ol])
         \<and> bignum 58 (map of_char out) (ol - zeros)
              (be_acc 256 0 (map unat (drop zeros input)))
         \<and> zeros \<le> ol \<and> ol \<le> length out"
proof -
  define n where "n = length input"
  define mx where "mx = n * 137 div 100 + 1"
  define rest where "rest = drop zeros input"
  have zn: "zeros \<le> n" unfolding zeros_def n_def by (rule Base58_leading_zeros_le)
  have nm: "n \<le> mx" unfolding mx_def by (rule Base58_max_ge)
  have "bignum 58 (replicate mx 0) 0 0" by (rule bignum_zero)
  then have b0: "bignum 58 (map of_char (replicate mx (CHR 0x00))) (zeros - zeros) 0"
    by simp
  have "(256 :: nat) ^ (n - zeros) \<le> 58 ^ (((n - zeros) + zeros) * 137 div 100 + 1 - zeros)"
    by (rule Base58_capacity)
  moreover have "(n - zeros) + zeros = n" using zn by simp
  ultimately have "(256 :: nat) ^ (n - zeros) \<le> 58 ^ (mx - zeros)"
    by (simp only: mx_def)
  moreover have "length rest = n - zeros" by (simp add: rest_def n_def)
  ultimately have fit: "(0 + 1) * 256 ^ length rest \<le> (58 :: nat) ^ (mx - zeros)"
    by simp
  have zm: "zeros \<le> mx" using zn nm by simp
  obtain out ol where
    o: "Base58_Encode_outer zeros mx rest (replicate mx (CHR 0x00), zeros) = Inr (out, ol)"
    and big: "bignum 58 (map of_char out) (ol - zeros) (be_acc 256 0 (map unat rest))"
    and zo: "zeros \<le> ol" and om: "ol \<le> mx" and lo: "length out = mx"
    using Base58_Encode_outer_ok [OF b0 order_refl zm _ fit] by auto
  have rs: "resize out ol (CHR 0x00) = take ol out"
    using om lo by (simp add: resize_def)
  have lt: "length (take ol out) = ol" using om lo by simp
  have sub: "Base58_Encode_subst ol 0 (take ol out, []) =
             (map Base58_substitute (take ol out), [ol])"
    using Base58_Encode_subst_eq [OF lt, of 0 "[]"] by simp
  have "Base58_Encode_run input =
          (case Base58_Encode_outer zeros mx rest (replicate mx (CHR 0x00), zeros) of
             Inl e \<Rightarrow> Inl e
           | Inr (output, output_length) \<Rightarrow>
               (case Base58_Encode_subst output_length 0
                       (resize output output_length (CHR 0x00), []) of
                  (output, beyond) \<Rightarrow> Inr (rev output, beyond)))"
    using assms(1)
    unfolding Base58_Encode_run_def Let_def n_def mx_def rest_def zeros_def
    by simp
  then have "Base58_Encode_run input = Inr (rev (map Base58_substitute (take ol out)), [ol])"
    by (simp add: o rs sub)
  with big zo om lo show ?thesis
    unfolding rest_def by auto
qed

section \<open>Encode never fails and is empty only for the empty input\<close>

lemma Base16_Encode_loop_length:
  "length (foldl Base16_Encode_step out xs) = length out + 2 * length xs"
  by (induction xs arbitrary: out) (simp_all add: Base16_Encode_step_def)

lemma Base16_Encode_empty_iff: "(Base16_Encode x = []) = (x = [])"
proof (cases "x = []")
  case True
  then show ?thesis by (simp add: Base16_Encode_def)
next
  case False
  then have "length (Base16_Encode x) = 2 * length x"
    by (simp add: Base16_Encode_def Base16_Encode_loop_length)
  with False show ?thesis by (metis length_0_conv mult_is_0 zero_neq_numeral)
qed

lemma Base32_Encode_empty_iff: "(Base32_Encode x = []) = (x = [])"
proof (cases "x = []")
  case True
  then show ?thesis by (simp add: Base32_Encode_def)
next
  case False
  obtain out grp where st: "foldl Base32_Encode_step ([], 0, 0, 0) x =
       (out, grp, 8 * (length x mod 5) mod 5, 8 * (length x mod 5) div 5)"
    and len: "length out = 8 * (length x div 5) + 8 * (length x mod 5) div 5"
    using Base32_Encode_loop_shape [of x] by blast
  have "Base32_Encode x \<noteq> []"
  proof (cases "8 * (length x mod 5) mod 5 = 0")
    case gs0: True
    have "length x mod 5 < 5" by simp
    from nat_less5_cases [OF this] gs0 have r0: "length x mod 5 = 0" by auto
    then have "length x = 5 * (length x div 5)" by (metis mult_div_mod_eq add.right_neutral)
    with False have "0 < length x div 5" by (cases "length x div 5") auto
    with len r0 have "out \<noteq> []" by auto
    with False gs0 show ?thesis by (simp add: Base32_Encode_def st)
  next
    case False2: False
    with False show ?thesis by (simp add: Base32_Encode_def st Let_def)
  qed
  with False show ?thesis by simp
qed

lemma Base45_Encode_step_progress:
  "fst (Base45_Encode_step st b) \<noteq> [] \<or> snd (snd (Base45_Encode_step st b)) > 0"
  by (cases st) (simp add: Base45_Encode_step_def Let_def)

lemma Base45_Encode_empty_iff: "(Base45_Encode x = []) = (x = [])"
proof (cases x rule: rev_cases)
  case Nil
  then show ?thesis by (simp add: Base45_Encode_def)
next
  case (snoc ys b)
  obtain out grp gs where st:
    "Base45_Encode_step (foldl Base45_Encode_step ([], 0, 0) ys) b = (out, grp, gs)"
    by (cases "Base45_Encode_step (foldl Base45_Encode_step ([], 0, 0) ys) b") auto
  with Base45_Encode_step_progress [of "foldl Base45_Encode_step ([], 0, 0) ys" b]
  have "out \<noteq> [] \<or> gs > 0" by simp
  then show ?thesis
    using snoc st by (auto simp: Base45_Encode_def Let_def)
qed

lemma Base64_Encode_step_progress:
  "fst (Base64_Encode_step st b) \<noteq> [] \<or> snd (snd (Base64_Encode_step st b)) > 0"
  by (cases st) (simp add: Base64_Encode_step_def Let_def)

lemma Base64_Encode_empty_iff: "(Base64_Encode x = []) = (x = [])"
proof (cases x rule: rev_cases)
  case Nil
  then show ?thesis by (simp add: Base64_Encode_def)
next
  case (snoc ys b)
  obtain out grp gs where st:
    "Base64_Encode_step (foldl Base64_Encode_step ([], 0, 0) ys) b = (out, grp, gs)"
    by (cases "Base64_Encode_step (foldl Base64_Encode_step ([], 0, 0) ys) b") auto
  with Base64_Encode_step_progress [of "foldl Base64_Encode_step ([], 0, 0) ys" b]
  have "out \<noteq> [] \<or> gs > 0" by simp
  then show ?thesis
    using snoc st by (auto simp: Base64_Encode_def Let_def)
qed

lemma Base58_Encode_run_nonempty:
  assumes "input \<noteq> []"
  shows "\<exists>s. Base58_Encode_run input = Inr (s, [length s]) \<and> s \<noteq> []"
proof -
  define zeros where "zeros = Base58_leading_zeros input"
  obtain out ol where
    run: "Base58_Encode_run input = Inr (rev (map Base58_substitute (take ol out)), [ol])"
    and big: "bignum 58 (map of_char out) (ol - zeros)
                (be_acc 256 0 (map unat (drop zeros input)))"
    and zo: "zeros \<le> ol" and ol: "ol \<le> length out"
    using Base58_Encode_run_eq [OF assms] unfolding zeros_def by blast
  have len: "length (rev (map Base58_substitute (take ol out))) = ol"
    using ol by simp
  have "0 < ol"
  proof (cases "zeros = 0")
    case False
    with zo show ?thesis by simp
  next
    case True
    then have "drop zeros input = input" by simp
    with Base58_leading_zeros_rest [of input] assms True
    have h: "hd input \<noteq> 0" by (auto simp: zeros_def)
    obtain b bs where i: "input = b # bs" using assms by (cases input) auto
    with h have "0 < unat b" by (simp add: unat_gt_0)
    also have "unat b \<le> be_acc 256 (0 * 256 + unat b) (map unat bs)"
      by (rule order_trans [OF _ be_acc_ge]) simp_all
    finally have "0 < be_acc 256 0 (map unat input)"
      by (simp add: i be_acc_Cons)
    moreover have "be_acc 256 0 (map unat input) < 58 ^ (ol - zeros)"
      using bignum_upper [OF _ big] True by simp
    ultimately show ?thesis
      using True by (cases ol) simp_all
  qed
  with len run show ?thesis
    by (metis length_greater_0_conv)
qed

text \<open>
  Claim C4.  Every Encode returns the empty text exactly for the empty input, and the
  Base58 one never takes its failure branch: with a buffer of
  \<open>input_length * 137 / 100 + 1\<close> digits no carry is left after a conversion pass.
\<close>

theorem Encode_total:
  "(Base16_Encode x = []) = (x = [])
   \<and> (Base32_Encode x = []) = (x = [])
   \<and> (Base45_Encode x = []) = (x = [])
   \<and> (Base58_Encode x = []) = (x = [])
   \<and> (Base64_Encode x = []) = (x = [])
   \<and> (\<exists>s. Base58_Encode_result x = Inr s)"
proof -
  have b58: "(Base58_Encode x = []) = (x = []) \<and> (\<exists>s. Base58_Encode_result x = Inr s)"
  proof (cases "x = []")
    case True
    then show ?thesis
      by (simp add: Base58_Encode_def Base58_Encode_result_def Base58_Encode_run_def
            returned_def)
  next
    case False
    from Base58_Encode_run_nonempty [OF this] False show ?thesis
      by (auto simp: Base58_Encode_def Base58_Encode_result_def returned_def)
  qed
  with Base16_Encode_empty_iff Base32_Encode_empty_iff Base45_Encode_empty_iff
       Base64_Encode_empty_iff
  show ?thesis by blast
qed

theorem Encode_total_witness:
  "Base16_Encode [0x00] \<noteq> [] \<and> Base32_Encode [0x00] \<noteq> [] \<and> Base45_Encode [0x00] \<noteq> []
   \<and> Base58_Encode [0x00] \<noteq> [] \<and> Base64_Encode [0x00] \<noteq> []
   \<and> (\<exists>s. Base58_Encode_result [0x00] = Inr s)"
  using Encode_total [of "[0x00]"] by simp

text \<open>
  Claim C9 says that every index Base58 Encode uses on the output string is smaller than
  the size of the string.  The substitution loop runs \<open>for (i = 0; i <= output_length; i++)\<close>
  on a string that was resized to \<open>output_length\<close>: for every non-empty input its last
  round uses the index \<open>output_length\<close>, the size of the string (the list of recorded
  indices is the size of the returned text).
\<close>

theorem Base58_Encode_index_equals_size:
  "input \<noteq> [] \<Longrightarrow> \<exists>s. Base58_Encode_run input = Inr (s, [length s])"
  using Base58_Encode_run_nonempty by blast

theorem Base58_Encode_index_equals_size_witness:
  "\<exists>s. Base58_Encode_run [0x00, 0x00, 0x28, 0x7f, 0xb4, 0xcd] = Inr (s, [length s])"
  using Base58_Encode_index_equals_size [of "[0x00, 0x00, 0x28, 0x7f, 0xb4, 0xcd]"] by simp

end
